theory Spec2Isabelle
  imports Main "HOL-Library.Word" "HOL-Library.AList"
begin

unbundle bit_operations_syntax

section \<open>System V semaphores: pkg/sentry/kernel/semaphore/semaphore.go\<close>

text \<open>
  A shallow embedding of package \<open>semaphore\<close>. Every Go function becomes a HOL function
  of the same name that takes the receiver (and the channel store, where the function
  touches a channel) and returns them updated. The set lock \<open>s.mu\<close> and the registry
  lock \<open>r.mu\<close> are held for the whole of every exported function, so one call is one
  atomic step of the model.
\<close>

subsection \<open>Machine integers and outcomes\<close>

type_synonym int16 = "16 word"
type_synonym uint16 = "16 word"
type_synonym int32 = "32 word"
type_synonym uint32 = "32 word"

text \<open>
  Go's fixed-size integers wrap around silently; \<open>+\<close>, \<open>-\<close> and unary minus on words
  do the same. A comparison of signed operands reads both through \<open>sint\<close>.
\<close>

text \<open>
  A call returns, panics (an index out of range, or an explicit \<open>panic\<close>), or blocks for
  good in a channel send whose buffer is full and that nobody drains.
\<close>

datatype 'a outcome = Returns 'a | Panics | Blocks

datatype error =
  EINVAL | EACCES | EEXIST | ENOENT | ENOSPC | ENOMEM | ERANGE | EFBIG | EIDRM
  | ErrWouldBlock

subsection \<open>What the package imports\<close>

text \<open>
  The packages \<open>linux\<close>, \<open>fs\<close> and \<open>auth\<close> are not part of the source at hand. Their
  constants and functions are parameters of the model: the limits \<open>linux.SEMVMX\<close>,
  \<open>SEMMNI\<close>, \<open>SEMMSL\<close>, \<open>SEMMNS\<close>, the flag \<open>linux.IPC_NOWAIT\<close>, and the two
  conversions of a file mode into permissions. The limits are untyped Go constants, that
  is integers. A comparison with a limit compares integers: converting the constant to
  the type of the other operand does not change its value, or the program would not
  compile. Arithmetic with a limit, as in \<open>valueMax - op.SemOp\<close>, is done in the type
  of the operand, where it wraps.
\<close>

type_synonym KUID = uint32
type_synonym KGID = uint32
type_synonym FileMode = uint16
type_synonym UserNamespace = nat
type_synonym Time = int

record FileOwner =
  UID :: KUID
  GID :: KGID

record PermMask =
  Read :: bool
  Write :: bool
  Execute :: bool

record FilePermissions =
  User :: PermMask
  Group :: PermMask
  Other :: PermMask

record extern =
  SEMVMX :: int
  SEMMNI :: int
  SEMMSL :: int
  SEMMNS :: int
  IPC_NOWAIT :: int
  PermsFromMode :: "FileMode \<Rightarrow> PermMask"
  FilePermsFromMode :: "FileMode \<Rightarrow> FilePermissions"

definition valueMax :: "extern \<Rightarrow> int" where
  "valueMax E = SEMVMX E"

definition setsMax :: "extern \<Rightarrow> int" where
  "setsMax E = SEMMNI E"

definition semsMax :: "extern \<Rightarrow> int" where
  "semsMax E = SEMMSL E"

definition semsTotalMax :: "extern \<Rightarrow> int" where
  "semsTotalMax E = SEMMNS E"

text \<open>
  Modelled from the spec: \<open>fs.PermMask.SupersetOf\<close> is declared in package \<open>fs\<close>; the
  permission check "requires the triad be a superset of reqMask", every requested bit is
  granted.
\<close>

definition SupersetOf :: "PermMask \<Rightarrow> PermMask \<Rightarrow> bool" where
  "SupersetOf p other =
     (if \<not> Read p \<and> Read other then False
      else if \<not> Write p \<and> Write other then False
      else if \<not> Execute p \<and> Execute other then False
      else True)"

text \<open>
  \<open>auth.Credentials\<close> is consumed through its fields \<open>EffectiveKUID\<close>,
  \<open>EffectiveKGID\<close> and its methods \<open>InGroup\<close>, \<open>HasCapabilityIn\<close> and
  \<open>UserNamespace.MapFromKUID(_).Ok()\<close>; the methods are fields of the record here.
\<close>

datatype Capability = CAP_IPC_OWNER

record Credentials =
  EffectiveKUID :: KUID
  EffectiveKGID :: KGID
  InGroup :: "KGID \<Rightarrow> bool"
  HasCapabilityIn :: "Capability \<Rightarrow> UserNamespace \<Rightarrow> bool"
  MapFromKUID_Ok :: "KUID \<Rightarrow> bool"

text \<open>
  \<open>context.Context\<close> gives the clock reading (\<open>ktime.NowFromContext\<close>), the caller's
  credentials (\<open>auth.CredentialsFromContext\<close>) and the caller as a file owner
  (\<open>fs.FileOwnerFromContext\<close>).
\<close>

record Context =
  NowFromContext :: Time
  CredentialsFromContext :: Credentials
  FileOwnerFromContext :: FileOwner

subsection \<open>Channels\<close>

text \<open>
  A wake handle is a Go channel \<open>chan struct{}\<close> made with capacity 1. It is shared by
  the waiter in the queue and by the caller that got it back from \<open>ExecuteOps\<close>, so the
  channels live in a store of their own: channel \<open>c\<close> is the \<open>c\<close>-th entry, which holds
  the number of signals buffered. \<open>make\<close> appends an empty channel. A send to a channel
  whose buffer is full does not complete; an index beyond the store stands for the
  \<open>nil\<close> channel, on which a send does not complete either.
\<close>

type_synonym chan = nat
type_synonym chans = "nat list"

definition make_chan :: "chans \<Rightarrow> chan \<times> chans" where
  "make_chan cs = (length cs, cs @ [0])"

definition send :: "chans \<Rightarrow> chan \<Rightarrow> chans outcome" where
  "send cs c =
     (if c < length cs \<and> cs ! c < 1 then Returns (cs[c := Suc (cs ! c)]) else Blocks)"

text \<open>The caller's side: taking a buffered signal out of its wake handle.\<close>

definition recv :: "chans \<Rightarrow> chan \<Rightarrow> chans" where
  "recv cs c = (if c < length cs \<and> 0 < cs ! c then cs[c := cs ! c - 1] else cs)"

subsection \<open>Data model\<close>

record waiter =
  w_value :: int16
  w_ch :: chan

record sem =
  sem_value :: int16
  sem_waiters :: "waiter list"
  sem_pid :: int32

text \<open>
  The back pointer \<open>registry\<close> of a set is used for \<open>s.registry.userNS\<close> only, which is
  immutable; the set carries that namespace.
\<close>

record Set =
  registry_userNS :: UserNamespace
  ID :: int32
  key :: int32
  creator :: FileOwner
  owner :: FileOwner
  perms :: FilePermissions
  opTime :: Time
  changeTime :: Time
  sems :: "sem list"
  dead :: bool

record Sembuf =
  SemNum :: uint16
  SemOp :: int16
  SemFlg :: int16

subsection \<open>Permission helpers\<close>

definition checkCredentials :: "Set \<Rightarrow> Credentials \<Rightarrow> bool" where
  "checkCredentials s creds =
     (UID (owner s) = EffectiveKUID creds \<or>
      GID (owner s) = EffectiveKGID creds \<or>
      UID (creator s) = EffectiveKUID creds \<or>
      GID (creator s) = EffectiveKGID creds)"

definition checkCapability :: "Set \<Rightarrow> Credentials \<Rightarrow> bool" where
  "checkCapability s creds =
     (HasCapabilityIn creds CAP_IPC_OWNER (registry_userNS s) \<and>
      MapFromKUID_Ok creds (UID (owner s)))"

definition checkPerms :: "Set \<Rightarrow> Credentials \<Rightarrow> PermMask \<Rightarrow> bool" where
  "checkPerms s creds reqPerms =
     (let p = (if UID (owner s) = EffectiveKUID creds then User (perms s)
               else if InGroup creds (GID (owner s)) then Group (perms s)
               else Other (perms s))
      in if SupersetOf p reqPerms then True else checkCapability s creds)"

subsection \<open>Waiters\<close>

definition abs_int16 :: "int16 \<Rightarrow> int16" where
  "abs_int16 val = (if sint val < 0 then - val else val)"

text \<open>
  \<open>newWaiter\<close> makes the waiter and its channel of capacity 1; the new channel is the
  next entry of the store.
\<close>

definition newWaiter :: "chans \<Rightarrow> int16 \<Rightarrow> waiter \<times> chans" where
  "newWaiter cs val = (\<lparr>w_value = val, w_ch = fst (make_chan cs)\<rparr>, snd (make_chan cs))"

text \<open>
  The loop of \<open>wakeWaiters\<close> over the queue, front to back, for a semaphore of value
  \<open>v\<close>: a waiter that is still blocked stays, any other is sent a signal and unlinked.
  The result is the queue that remains and the channel store.
\<close>

fun wakeWaiters_loop :: "int16 \<Rightarrow> waiter list \<Rightarrow> chans \<Rightarrow> (waiter list \<times> chans) outcome" where
  "wakeWaiters_loop v [] cs = Returns ([], cs)"
| "wakeWaiters_loop v (w # ws) cs =
     (if sint v < sint (abs_int16 (w_value w)) then
        (case wakeWaiters_loop v ws cs of
           Returns (ws', cs') \<Rightarrow> Returns (w # ws', cs')
         | Panics \<Rightarrow> Panics
         | Blocks \<Rightarrow> Blocks)
      else
        (case send cs (w_ch w) of
           Returns cs' \<Rightarrow> wakeWaiters_loop v ws cs'
         | Panics \<Rightarrow> Panics
         | Blocks \<Rightarrow> Blocks))"

definition wakeWaiters :: "sem \<Rightarrow> chans \<Rightarrow> (sem \<times> chans) outcome" where
  "wakeWaiters sm cs =
     (case wakeWaiters_loop (sem_value sm) (sem_waiters sm) cs of
        Returns (ws', cs') \<Rightarrow> Returns (sm\<lparr>sem_waiters := ws'\<rparr>, cs')
      | Panics \<Rightarrow> Panics
      | Blocks \<Rightarrow> Blocks)"

subsection \<open>Operations on a set\<close>

definition Size :: "Set \<Rightarrow> nat" where
  "Size s = length (sems s)"

text \<open>\<open>findSem\<close> returns a pointer into \<open>s.sems\<close>, here the index, or \<open>nil\<close>.\<close>

definition findSem :: "Set \<Rightarrow> int32 \<Rightarrow> nat option" where
  "findSem s num =
     (if sint num < 0 \<or> int (Size s) \<le> sint num then None else Some (nat (sint num)))"

definition SetVal ::
  "extern \<Rightarrow> Context \<Rightarrow> Set \<Rightarrow> chans \<Rightarrow> int32 \<Rightarrow> int16 \<Rightarrow> Credentials \<Rightarrow> int32
     \<Rightarrow> (error option \<times> Set \<times> chans) outcome" where
  "SetVal E ctx s cs num val creds pid =
     (if sint val < 0 \<or> valueMax E < sint val then Returns (Some ERANGE, s, cs)
      else if \<not> checkPerms s creds \<lparr>Read = False, Write = True, Execute = False\<rparr>
      then Returns (Some EACCES, s, cs)
      else
        (case findSem s num of
           None \<Rightarrow> Returns (Some ERANGE, s, cs)
         | Some i \<Rightarrow>
             (case wakeWaiters ((sems s ! i)\<lparr>sem_value := val, sem_pid := pid\<rparr>) cs of
                Returns (sm, cs') \<Rightarrow>
                  Returns (None, s\<lparr>sems := (sems s)[i := sm], changeTime := NowFromContext ctx\<rparr>, cs')
              | Panics \<Rightarrow> Panics
              | Blocks \<Rightarrow> Blocks)))"

text \<open>
  The second loop of \<open>SetValAll\<close>: \<open>for i, val := range vals\<close>, on \<open>s.sems[i]\<close>.
  \<open>int16(val)\<close> keeps the sixteen bits.
\<close>

fun SetValAll_loop ::
  "int32 \<Rightarrow> nat \<Rightarrow> uint16 list \<Rightarrow> sem list \<Rightarrow> chans \<Rightarrow> (sem list \<times> chans) outcome" where
  "SetValAll_loop pid i [] ss cs = Returns (ss, cs)"
| "SetValAll_loop pid i (val # vals) ss cs =
     (if i < length ss then
        (case wakeWaiters ((ss ! i)\<lparr>sem_value := val, sem_pid := pid\<rparr>) cs of
           Returns (sm, cs') \<Rightarrow> SetValAll_loop pid (Suc i) vals (ss[i := sm]) cs'
         | Panics \<Rightarrow> Panics
         | Blocks \<Rightarrow> Blocks)
      else Panics)"

definition SetValAll ::
  "extern \<Rightarrow> Context \<Rightarrow> Set \<Rightarrow> chans \<Rightarrow> uint16 list \<Rightarrow> Credentials \<Rightarrow> int32
     \<Rightarrow> (error option \<times> Set \<times> chans) outcome" where
  "SetValAll E ctx s cs vals creds pid =
     (if length vals \<noteq> Size s then Panics
      else if list_ex (\<lambda>val. valueMax E < uint val) vals then Returns (Some ERANGE, s, cs)
      else if \<not> checkPerms s creds \<lparr>Read = False, Write = True, Execute = False\<rparr>
      then Returns (Some EACCES, s, cs)
      else
        (case SetValAll_loop pid 0 vals (sems s) cs of
           Returns (ss, cs') \<Rightarrow>
             Returns (None, s\<lparr>sems := ss, changeTime := NowFromContext ctx\<rparr>, cs')
         | Panics \<Rightarrow> Panics
         | Blocks \<Rightarrow> Blocks))"

definition GetVal :: "Set \<Rightarrow> int32 \<Rightarrow> Credentials \<Rightarrow> int16 \<times> error option" where
  "GetVal s num creds =
     (if \<not> checkPerms s creds \<lparr>Read = True, Write = False, Execute = False\<rparr>
      then (0, Some EACCES)
      else
        (case findSem s num of
           None \<Rightarrow> (0, Some ERANGE)
         | Some i \<Rightarrow> (sem_value (sems s ! i), None)))"

text \<open>\<open>uint16(sem.value)\<close> keeps the sixteen bits; the \<open>nil\<close> slice is the empty list.\<close>

definition GetValAll :: "Set \<Rightarrow> Credentials \<Rightarrow> uint16 list \<times> error option" where
  "GetValAll s creds =
     (if \<not> checkPerms s creds \<lparr>Read = True, Write = False, Execute = False\<rparr>
      then ([], Some EACCES)
      else (map sem_value (sems s), None))"

definition GetPID :: "Set \<Rightarrow> int32 \<Rightarrow> Credentials \<Rightarrow> int32 \<times> error option" where
  "GetPID s num creds =
     (if \<not> checkPerms s creds \<lparr>Read = True, Write = False, Execute = False\<rparr>
      then (0, Some EACCES)
      else
        (case findSem s num of
           None \<Rightarrow> (0, Some ERANGE)
         | Some i \<Rightarrow> (sem_pid (sems s ! i), None)))"

text \<open>The counter \<open>cnt\<close> is a \<open>uint16\<close> and wraps.\<close>

definition countWaiters ::
  "Set \<Rightarrow> int32 \<Rightarrow> Credentials \<Rightarrow> (waiter \<Rightarrow> bool) \<Rightarrow> uint16 \<times> error option" where
  "countWaiters s num creds pred =
     (if \<not> checkPerms s creds \<lparr>Read = True, Write = False, Execute = False\<rparr>
      then (0, Some EACCES)
      else
        (case findSem s num of
           None \<Rightarrow> (0, Some ERANGE)
         | Some i \<Rightarrow> (word_of_nat (length (filter pred (sem_waiters (sems s ! i)))), None)))"

definition CountZeroWaiters :: "Set \<Rightarrow> int32 \<Rightarrow> Credentials \<Rightarrow> uint16 \<times> error option" where
  "CountZeroWaiters s num creds = countWaiters s num creds (\<lambda>w. w_value w = 0)"

definition CountNegativeWaiters :: "Set \<Rightarrow> int32 \<Rightarrow> Credentials \<Rightarrow> uint16 \<times> error option" where
  "CountNegativeWaiters s num creds = countWaiters s num creds (\<lambda>w. sint (w_value w) < 0)"

subsection \<open>The atomic engine\<close>

text \<open>
  The validation loop of \<open>ExecuteOps\<close>: \<open>None\<close> when some \<open>findSem\<close> is \<open>nil\<close>
  (\<open>EFBIG\<close>), else the final \<open>readOnly\<close>. \<open>int32(op.SemNum)\<close> extends an unsigned
  sixteen-bit number.
\<close>

fun ExecuteOps_validate :: "Set \<Rightarrow> bool \<Rightarrow> Sembuf list \<Rightarrow> bool option" where
  "ExecuteOps_validate s readOnly [] = Some readOnly"
| "ExecuteOps_validate s readOnly (op # ops) =
     (if findSem s (ucast (SemNum op)) = None then None
      else if SemOp op \<noteq> 0 then ExecuteOps_validate s False ops
      else ExecuteOps_validate s readOnly ops)"

text \<open>
  The three lines that park the caller, twice in \<open>executeOps\<close>: a new waiter for
  \<open>op.SemOp\<close> goes to the back of the queue of \<open>s.sems[op.SemNum]\<close>, and its channel
  and the index are returned.
\<close>

definition executeOps_block ::
  "Set \<Rightarrow> chans \<Rightarrow> Sembuf \<Rightarrow> (chan option \<times> int32 \<times> error option) \<times> Set \<times> chans" where
  "executeOps_block s cs op =
     ((Some (w_ch (fst (newWaiter cs (SemOp op)))), ucast (SemNum op), None),
      s\<lparr>sems := (sems s)[unat (SemNum op) :=
            (sems s ! unat (SemNum op))
              \<lparr>sem_waiters := sem_waiters (sems s ! unat (SemNum op)) @ [fst (newWaiter cs (SemOp op))]\<rparr>]\<rparr>,
      snd (newWaiter cs (SemOp op)))"

text \<open>
  The dry run over \<open>ops\<close> on the shadow vector \<open>tmpVals\<close>. \<open>Inl\<close> is a \<open>return\<close> from
  inside the loop, with the set and the channels as they are then; \<open>Inr\<close> is the shadow
  vector when the loop runs to its end. \<open>&s.sems[op.SemNum]\<close> panics out of range.
\<close>

fun executeOps_loop ::
  "extern \<Rightarrow> Set \<Rightarrow> chans \<Rightarrow> int16 list \<Rightarrow> Sembuf list
     \<Rightarrow> (((chan option \<times> int32 \<times> error option) \<times> Set \<times> chans) + int16 list) outcome" where
  "executeOps_loop E s cs tmpVals [] = Returns (Inr tmpVals)"
| "executeOps_loop E s cs tmpVals (op # ops) =
     (if \<not> unat (SemNum op) < length (sems s) then Panics
      else if SemOp op = 0 then
        (if tmpVals ! unat (SemNum op) \<noteq> 0 then
           (if SemFlg op AND word_of_int (IPC_NOWAIT E) \<noteq> 0
            then Returns (Inl ((None, 0, Some ErrWouldBlock), s, cs))
            else Returns (Inl (executeOps_block s cs op)))
         else executeOps_loop E s cs tmpVals ops)
      else if sint (SemOp op) < 0 then
        (if valueMax E < sint (- SemOp op) then Returns (Inl ((None, 0, Some ERANGE), s, cs))
         else if sint (tmpVals ! unat (SemNum op)) < sint (- SemOp op) then
           (if SemFlg op AND word_of_int (IPC_NOWAIT E) \<noteq> 0
            then Returns (Inl ((None, 0, Some ErrWouldBlock), s, cs))
            else Returns (Inl (executeOps_block s cs op)))
         else
           executeOps_loop E s cs
             (tmpVals[unat (SemNum op) := tmpVals ! unat (SemNum op) + SemOp op]) ops)
      else
        (if sint (word_of_int (valueMax E) - SemOp op) < sint (tmpVals ! unat (SemNum op))
         then Returns (Inl ((None, 0, Some ERANGE), s, cs))
         else
           executeOps_loop E s cs
             (tmpVals[unat (SemNum op) := tmpVals ! unat (SemNum op) + SemOp op]) ops))"

text \<open>
  The commit loop \<open>for i, v := range tmpVals\<close>: the value, then \<open>wakeWaiters\<close>, then
  the pid, on \<open>s.sems[i]\<close>.
\<close>

fun executeOps_commit ::
  "int32 \<Rightarrow> nat \<Rightarrow> int16 list \<Rightarrow> sem list \<Rightarrow> chans \<Rightarrow> (sem list \<times> chans) outcome" where
  "executeOps_commit pid i [] ss cs = Returns (ss, cs)"
| "executeOps_commit pid i (v # vs) ss cs =
     (if i < length ss then
        (case wakeWaiters ((ss ! i)\<lparr>sem_value := v\<rparr>) cs of
           Returns (sm, cs') \<Rightarrow> executeOps_commit pid (Suc i) vs (ss[i := sm\<lparr>sem_pid := pid\<rparr>]) cs'
         | Panics \<Rightarrow> Panics
         | Blocks \<Rightarrow> Blocks)
      else Panics)"

definition executeOps ::
  "extern \<Rightarrow> Context \<Rightarrow> Set \<Rightarrow> chans \<Rightarrow> Sembuf list \<Rightarrow> int32
     \<Rightarrow> ((chan option \<times> int32 \<times> error option) \<times> Set \<times> chans) outcome" where
  "executeOps E ctx s cs ops pid =
     (case executeOps_loop E s cs (map sem_value (sems s)) ops of
        Returns (Inl ret) \<Rightarrow> Returns ret
      | Returns (Inr tmpVals) \<Rightarrow>
          (case executeOps_commit pid 0 tmpVals (sems s) cs of
             Returns (ss, cs') \<Rightarrow>
               Returns ((None, 0, None), s\<lparr>sems := ss, opTime := NowFromContext ctx\<rparr>, cs')
           | Panics \<Rightarrow> Panics
           | Blocks \<Rightarrow> Blocks)
      | Panics \<Rightarrow> Panics
      | Blocks \<Rightarrow> Blocks)"

definition ExecuteOps ::
  "extern \<Rightarrow> Context \<Rightarrow> Set \<Rightarrow> chans \<Rightarrow> Sembuf list \<Rightarrow> Credentials \<Rightarrow> int32
     \<Rightarrow> ((chan option \<times> int32 \<times> error option) \<times> Set \<times> chans) outcome" where
  "ExecuteOps E ctx s cs ops creds pid =
     (if dead s then Returns ((None, 0, Some EIDRM), s, cs)
      else
        (case ExecuteOps_validate s True ops of
           None \<Rightarrow> Returns ((None, 0, Some EFBIG), s, cs)
         | Some readOnly \<Rightarrow>
             (if \<not> checkPerms s creds \<lparr>Read = readOnly, Write = \<not> readOnly, Execute = False\<rparr>
              then Returns ((None, 0, Some EACCES), s, cs)
              else
                (case executeOps E ctx s cs ops pid of
                   Returns ((ch, num, Some err), s', cs') \<Rightarrow> Returns ((None, 0, Some err), s', cs')
                 | Returns ((ch, num, None), s', cs') \<Rightarrow> Returns ((ch, num, None), s', cs')
                 | Panics \<Rightarrow> Panics
                 | Blocks \<Rightarrow> Blocks))))"

subsection \<open>Giving up and destruction\<close>

text \<open>The scan of \<open>AbortWait\<close>: the first waiter with the channel \<open>ch\<close> is unlinked.\<close>

fun AbortWait_loop :: "chan \<Rightarrow> waiter list \<Rightarrow> waiter list" where
  "AbortWait_loop ch [] = []"
| "AbortWait_loop ch (w # ws) = (if w_ch w = ch then ws else w # AbortWait_loop ch ws)"

text \<open>\<open>&s.sems[num]\<close> with an \<open>int32\<close> index panics when \<open>num\<close> is out of range.\<close>

definition AbortWait :: "Set \<Rightarrow> int32 \<Rightarrow> chan \<Rightarrow> Set outcome" where
  "AbortWait s num ch =
     (if sint num < 0 \<or> int (length (sems s)) \<le> sint num then Panics
      else
        Returns (s\<lparr>sems := (sems s)[nat (sint num) :=
          (sems s ! nat (sint num))
            \<lparr>sem_waiters := AbortWait_loop ch (sem_waiters (sems s ! nat (sint num)))\<rparr>]\<rparr>))"

text \<open>The inner loop of \<open>destroy\<close>: one send to the channel of every waiter of a queue.\<close>

fun destroy_notify :: "waiter list \<Rightarrow> chans \<Rightarrow> chans outcome" where
  "destroy_notify [] cs = Returns cs"
| "destroy_notify (w # ws) cs =
     (case send cs (w_ch w) of
        Returns cs' \<Rightarrow> destroy_notify ws cs'
      | Panics \<Rightarrow> Panics
      | Blocks \<Rightarrow> Blocks)"

text \<open>
  The outer loop of \<open>destroy\<close> is \<open>for _, s := range s.sems\<close>. The loop variable is a
  copy of the element: \<open>sem\<close> is a struct, and its field \<open>waiters\<close> is a list head
  held by value (the zero value of \<open>sem\<close> that \<open>make([]sem, nsems)\<close> produces is an
  empty queue ready for \<open>PushBack\<close>). The waiters reached through the copy are the
  queued ones, so the sends go to their channels. \<open>s.waiters.Reset()\<close> empties the head
  of the copy, which is dropped at the end of the iteration: the element of \<open>s.sems\<close>
  keeps its queue. The loop therefore returns the channel store only.
\<close>

fun destroy_loop :: "sem list \<Rightarrow> chans \<Rightarrow> chans outcome" where
  "destroy_loop [] cs = Returns cs"
| "destroy_loop (sm # ss) cs =
     (case destroy_notify (sem_waiters sm) cs of
        Returns cs' \<Rightarrow> destroy_loop ss cs'
      | Panics \<Rightarrow> Panics
      | Blocks \<Rightarrow> Blocks)"

definition destroy :: "Set \<Rightarrow> chans \<Rightarrow> (Set \<times> chans) outcome" where
  "destroy s cs =
     (case destroy_loop (sems (s\<lparr>dead := True\<rparr>)) cs of
        Returns cs' \<Rightarrow> Returns (s\<lparr>dead := True\<rparr>, cs')
      | Panics \<Rightarrow> Panics
      | Blocks \<Rightarrow> Blocks)"

subsection \<open>The registry\<close>

text \<open>
  The two Go maps are association lists with distinct keys: \<open>map_of\<close> looks a key up,
  \<open>AList.update\<close> stores and \<open>AList.delete\<close> removes. A pointer \<open>*Set\<close> that the
  map holds is never \<open>nil\<close>, so \<open>r.semaphores[id] == nil\<close> says that \<open>id\<close> is not a
  key. Go leaves the order of \<open>range\<close> over a map open; the order of the list stands
  for the order of one such visit, and no theorem below fixes it. The Go variables
  \<open>id\<close> and \<open>set\<close> are written \<open>ident\<close> and \<open>st\<close>, since HOL has constants of
  those names.
\<close>

record Registry =
  userNS :: UserNamespace
  semaphores :: "(int32 \<times> Set) list"
  lastIDUsed :: int32
  indexes :: "(int32 \<times> int32) list"

definition NewRegistry :: "UserNamespace \<Rightarrow> Registry" where
  "NewRegistry ns = \<lparr>userNS = ns, semaphores = [], lastIDUsed = 0, indexes = []\<rparr>"

definition FindByID :: "Registry \<Rightarrow> int32 \<Rightarrow> Set option" where
  "FindByID r ident = map_of (semaphores r) ident"

definition findByKey :: "Registry \<Rightarrow> int32 \<Rightarrow> Set option" where
  "findByKey r k = map_option snd (find (\<lambda>(ident, v). key v = k) (semaphores r))"

definition findIndexByID :: "Registry \<Rightarrow> int32 \<Rightarrow> int32 \<times> bool" where
  "findIndexByID r ident =
     (case find (\<lambda>(k, v). v = ident) (indexes r) of
        Some (k, v) \<Rightarrow> (k, True)
      | None \<Rightarrow> (0, False))"

text \<open>
  The loop of \<open>findFirstAvailableIndex\<close>. The counter \<open>index\<close> is an \<open>int32\<close> that
  stays in \<open>[0, setsMax]\<close>, and \<open>setsMax\<close> is a constant that the comparison converts
  to \<open>int32\<close>, so \<open>index++\<close> cannot wrap; the model counts in \<open>nat\<close>.
\<close>

function findFirstAvailableIndex_loop :: "extern \<Rightarrow> Registry \<Rightarrow> nat \<Rightarrow> int32 \<times> bool" where
  "findFirstAvailableIndex_loop E r index =
     (if int index < setsMax E then
        (if map_of (indexes r) (word_of_nat index) = None then (word_of_nat index, True)
         else findFirstAvailableIndex_loop E r (Suc index))
      else (0, False))"
  by pat_completeness auto
termination
  by (relation "measure (\<lambda>(E, r, index). nat (setsMax E) - index)") auto

declare findFirstAvailableIndex_loop.simps [simp del]

definition findFirstAvailableIndex :: "extern \<Rightarrow> Registry \<Rightarrow> int32 \<times> bool" where
  "findFirstAvailableIndex E r = findFirstAvailableIndex_loop E r 0"

definition totalSems :: "Registry \<Rightarrow> nat" where
  "totalSems r = sum_list (map (\<lambda>(ident, v). Size v) (semaphores r))"

text \<open>
  The search of \<open>newSet\<close> for an identifier,
  \<open>for id := r.lastIDUsed + 1; id != r.lastIDUsed; id++\<close>, as a function of the current
  \<open>id\<close>. After \<open>id = 0; continue\<close> the post statement \<open>id++\<close> runs before the next
  test, so the search goes on at \<open>0 + 1\<close>. Nothing in the loop bounds the number of
  rounds, hence the result is an option: \<open>None\<close> is a search that never ends.
\<close>

partial_function (option) newSet_loop ::
  "extern \<Rightarrow> Registry \<Rightarrow> Set \<Rightarrow> int32 \<Rightarrow> ((Set option \<times> error option) \<times> Registry) outcome option" where
  "newSet_loop E r st ident =
     (if ident = lastIDUsed r then Some (Returns ((None, Some ENOMEM), r))
      else if sint ident < 0 then newSet_loop E r st (0 + 1)
      else if map_of (semaphores r) ident = None then
        (if \<not> snd (findFirstAvailableIndex E r) then Some Panics
         else
           Some (Returns ((Some (st\<lparr>ID := ident\<rparr>), None),
             r\<lparr>indexes := AList.update (fst (findFirstAvailableIndex E r)) ident (indexes r),
               lastIDUsed := ident,
               semaphores := AList.update ident (st\<lparr>ID := ident\<rparr>) (semaphores r)\<rparr>)))
      else newSet_loop E r st (ident + 1))"

text \<open>
  The composite literal \<open>&Set{...}\<close> at the head of \<open>newSet\<close>. It has
  \<open>creator: owner\<close>: the parameter \<open>creator\<close> of \<open>newSet\<close> is not used. The fields
  left out (\<open>ID\<close>, \<open>opTime\<close>, \<open>dead\<close>) and the elements of \<open>make([]sem, nsems)\<close>
  have their zero values.
\<close>

definition newSet_literal ::
  "Context \<Rightarrow> Registry \<Rightarrow> int32 \<Rightarrow> FileOwner \<Rightarrow> FilePermissions \<Rightarrow> int32 \<Rightarrow> Set" where
  "newSet_literal ctx r k own prm nsems =
     \<lparr>registry_userNS = userNS r, ID = 0, key = k, creator = own, owner = own,
      perms = prm, opTime = 0, changeTime = NowFromContext ctx,
      sems = replicate (nat (sint nsems)) \<lparr>sem_value = 0, sem_waiters = [], sem_pid = 0\<rparr>,
      dead = False\<rparr>"

text \<open>\<open>make([]sem, nsems)\<close> panics for a negative length.\<close>

definition newSet ::
  "extern \<Rightarrow> Context \<Rightarrow> Registry \<Rightarrow> int32 \<Rightarrow> FileOwner \<Rightarrow> FileOwner \<Rightarrow> FilePermissions \<Rightarrow> int32
     \<Rightarrow> ((Set option \<times> error option) \<times> Registry) outcome option" where
  "newSet E ctx r k own creat prm nsems =
     (if sint nsems < 0 then Some Panics
      else newSet_loop E r (newSet_literal ctx r k own prm nsems) (lastIDUsed r + 1))"

text \<open>
  The tail of \<open>FindOrCreate\<close>, from "Zero is only valid if an existing set is found"
  on: the creation of a set. \<open>semsTotalMax-nsems\<close> is computed in \<open>int32\<close>.
\<close>

definition FindOrCreate_create ::
  "extern \<Rightarrow> Context \<Rightarrow> Registry \<Rightarrow> int32 \<Rightarrow> int32 \<Rightarrow> FileMode
     \<Rightarrow> ((Set option \<times> error option) \<times> Registry) outcome option" where
  "FindOrCreate_create E ctx r k nsems mode =
     (if nsems = 0 then Some (Returns ((None, Some EINVAL), r))
      else if setsMax E \<le> int (length (semaphores r)) then Some (Returns ((None, Some ENOSPC), r))
      else if sint (word_of_int (semsTotalMax E) - nsems) < int (totalSems r)
      then Some (Returns ((None, Some ENOSPC), r))
      else
        newSet E ctx r k (FileOwnerFromContext ctx) (FileOwnerFromContext ctx)
          (FilePermsFromMode E mode) nsems)"

definition FindOrCreate ::
  "extern \<Rightarrow> Context \<Rightarrow> Registry \<Rightarrow> int32 \<Rightarrow> int32 \<Rightarrow> FileMode \<Rightarrow> bool \<Rightarrow> bool \<Rightarrow> bool
     \<Rightarrow> ((Set option \<times> error option) \<times> Registry) outcome option" where
  "FindOrCreate E ctx r k nsems mode private create exclusive =
     (if sint nsems < 0 \<or> semsMax E < sint nsems then Some (Returns ((None, Some EINVAL), r))
      else if \<not> private then
        (case findByKey r k of
           Some st \<Rightarrow>
             (if \<not> checkPerms st (CredentialsFromContext ctx) (PermsFromMode E mode)
              then Some (Returns ((None, Some EACCES), r))
              else if sint (word_of_nat (Size st) :: int32) < sint nsems
              then Some (Returns ((None, Some EINVAL), r))
              else if create \<and> exclusive then Some (Returns ((None, Some EEXIST), r))
              else Some (Returns ((Some st, None), r)))
         | None \<Rightarrow>
             (if \<not> create then Some (Returns ((None, Some ENOENT), r))
              else FindOrCreate_create E ctx r k nsems mode))
      else FindOrCreate_create E ctx r k nsems mode)"

text \<open>
  \<open>RemoveID\<close> returns the error, the registry, the removed set as \<open>destroy\<close> leaves
  it (callers that looked the set up earlier still hold it), and the channels.
\<close>

definition RemoveID ::
  "Registry \<Rightarrow> chans \<Rightarrow> int32 \<Rightarrow> Credentials
     \<Rightarrow> (error option \<times> Registry \<times> Set option \<times> chans) outcome" where
  "RemoveID r cs ident creds =
     (case map_of (semaphores r) ident of
        None \<Rightarrow> Returns (Some EINVAL, r, None, cs)
      | Some st \<Rightarrow>
          (if \<not> snd (findIndexByID r ident) then Panics
           else if \<not> checkCredentials st creds \<and> \<not> checkCapability st creds
           then Returns (Some EACCES, r, Some st, cs)
           else
             (case destroy st cs of
                Returns (st', cs') \<Rightarrow>
                  Returns (None,
                    r\<lparr>semaphores := AList.delete (ID st) (semaphores r),
                      indexes := AList.delete (fst (findIndexByID r ident)) (indexes r)\<rparr>,
                    Some st', cs')
              | Panics \<Rightarrow> Panics
              | Blocks \<Rightarrow> Blocks)))"

subsection \<open>The waiters of a set and their channels\<close>

text \<open>
  The waiters that stand in some queue of the set, queue after queue, and the state in
  which the claims about wake handles put them: the channels of the queued waiters are
  pairwise different, made, and empty.
\<close>

definition queued :: "Set \<Rightarrow> waiter list" where
  "queued s = concat (map sem_waiters (sems s))"

definition queues_idle :: "Set \<Rightarrow> chans \<Rightarrow> bool" where
  "queues_idle s cs =
     (distinct (map w_ch (queued s)) \<and>
      list_all (\<lambda>w. w_ch w < length cs \<and> cs ! w_ch w = 0) (queued s))"

text \<open>The test of \<open>wakeWaiters\<close> that keeps a waiter in the queue.\<close>

definition still_blocked :: "int16 \<Rightarrow> waiter \<Rightarrow> bool" where
  "still_blocked v w = (sint v < sint (abs_int16 (w_value w)))"

text \<open>The range of values that the data model intends: every value in \<open>[0, valueMax]\<close>.\<close>

definition values_in_range :: "extern \<Rightarrow> Set \<Rightarrow> bool" where
  "values_in_range E s =
     list_all (\<lambda>sm. 0 \<le> sint (sem_value sm) \<and> sint (sem_value sm) \<le> valueMax E) (sems s)"

subsection \<open>Concrete inputs\<close>

text \<open>
  The inputs at which the theorems below are instantiated. \<open>linux_extern\<close> holds the
  values of the Linux ABI for the limits and for \<open>IPC_NOWAIT\<close> (octal 4000).

  Modelled from the spec: \<open>fs.PermsFromMode\<close> and \<open>fs.FilePermsFromMode\<close> are declared
  in package \<open>fs\<close>; the request mask has the "read/write bits derived from mode's owner
  triad", and a mode is the "standard 9-bit owner/group/other x read/write/exec encoding".
\<close>

definition mode_triad :: "FileMode \<Rightarrow> PermMask" where
  "mode_triad m = \<lparr>Read = (m AND 0x100 \<noteq> 0), Write = (m AND 0x80 \<noteq> 0), Execute = (m AND 0x40 \<noteq> 0)\<rparr>"

definition linux_extern :: extern where
  "linux_extern =
     \<lparr>SEMVMX = 32767, SEMMNI = 32000, SEMMSL = 32000, SEMMNS = 1024000000,
      IPC_NOWAIT = 2048,
      PermsFromMode = mode_triad,
      FilePermsFromMode =
        (\<lambda>m. \<lparr>User = mode_triad m, Group = mode_triad (push_bit 3 m), Other = mode_triad (push_bit 6 m)\<rparr>)\<rparr>"

text \<open>Two callers without capabilities: the owner of the example sets, and a stranger.\<close>

definition alice :: Credentials where
  "alice =
     \<lparr>EffectiveKUID = 1000, EffectiveKGID = 1000, InGroup = (\<lambda>g. g = 1000),
      HasCapabilityIn = (\<lambda>c ns. False), MapFromKUID_Ok = (\<lambda>u. True)\<rparr>"

definition mallory :: Credentials where
  "mallory =
     \<lparr>EffectiveKUID = 2000, EffectiveKGID = 2000, InGroup = (\<lambda>g. g = 2000),
      HasCapabilityIn = (\<lambda>c ns. False), MapFromKUID_Ok = (\<lambda>u. True)\<rparr>"

definition ctx_alice :: Context where
  "ctx_alice =
     \<lparr>NowFromContext = 100, CredentialsFromContext = alice,
      FileOwnerFromContext = \<lparr>UID = 1000, GID = 1000\<rparr>\<rparr>"

definition ctx_mallory :: Context where
  "ctx_mallory =
     \<lparr>NowFromContext = 200, CredentialsFromContext = mallory,
      FileOwnerFromContext = \<lparr>UID = 2000, GID = 2000\<rparr>\<rparr>"

definition rw_owner :: FilePermissions where
  "rw_owner =
     \<lparr>User = \<lparr>Read = True, Write = True, Execute = False\<rparr>,
      Group = \<lparr>Read = False, Write = False, Execute = False\<rparr>,
      Other = \<lparr>Read = False, Write = False, Execute = False\<rparr>\<rparr>"

text \<open>
  A set of alice's with mode 0600, identifier 1 and key 7, created at time 100, holding
  the given semaphores.
\<close>

definition set_of :: "sem list \<Rightarrow> Set" where
  "set_of ss =
     \<lparr>registry_userNS = 0, ID = 1, key = 7,
      creator = \<lparr>UID = 1000, GID = 1000\<rparr>, owner = \<lparr>UID = 1000, GID = 1000\<rparr>,
      perms = rw_owner, opTime = 0, changeTime = 100, sems = ss, dead = False\<rparr>"

definition sem_of :: "int16 \<Rightarrow> waiter list \<Rightarrow> int32 \<Rightarrow> sem" where
  "sem_of v ws p = \<lparr>sem_value = v, sem_waiters = ws, sem_pid = p\<rparr>"

definition sembuf :: "uint16 \<Rightarrow> int16 \<Rightarrow> int16 \<Rightarrow> Sembuf" where
  "sembuf n v f = \<lparr>SemNum = n, SemOp = v, SemFlg = f\<rparr>"

text \<open>
  A set with one semaphore of value 0 on which two callers are parked: the first waits
  for one unit on channel 0, the second for zero on channel 1.
\<close>

definition parked :: Set where
  "parked = set_of [sem_of 0 [\<lparr>w_value = - 1, w_ch = 0\<rparr>, \<lparr>w_value = 0, w_ch = 1\<rparr>] 0]"

text \<open>A registry that holds that set under identifier 1 and index 0.\<close>

definition reg_parked :: Registry where
  "reg_parked = \<lparr>userNS = 0, semaphores = [(1, parked)], lastIDUsed = 1, indexes = [(0, 1)]\<rparr>"

text \<open>
  A registry for the search of \<open>newSet\<close>: it holds no set, and its identifier
  counter has reached the largest \<open>int32\<close>.
\<close>

definition reg_wrapped :: Registry where
  "reg_wrapped = \<lparr>userNS = 0, semaphores = [], lastIDUsed = 2147483647, indexes = []\<rparr>"

text \<open>
  One round of the calls that lead there: alice creates a set of one semaphore with
  \<open>FindOrCreate\<close> (key 7, mode 0600, \<open>create\<close> set) and removes it again with
  \<open>RemoveID\<close>. The result is the registry after the two calls; it is the registry
  before them if one of the two fails.
\<close>

definition create_then_remove :: "Registry \<Rightarrow> Registry" where
  "create_then_remove r =
     (case FindOrCreate linux_extern ctx_alice r 7 1 384 False True False of
        Some (Returns ((Some st, None), r1)) \<Rightarrow>
          (case RemoveID r1 [] (ID st) alice of
             Returns (None, r2, gone, cs) \<Rightarrow> r2
           | _ \<Rightarrow> r)
      | _ \<Rightarrow> r)"

section \<open>Theorems\<close>

subsection \<open>Permissions\<close>

lemma SupersetOf_trans:
  "SupersetOf p m \<Longrightarrow> SupersetOf m m' \<Longrightarrow> SupersetOf p m'"
  by (auto simp: SupersetOf_def split: if_splits)

lemmas ex_defs = linux_extern_def alice_def mallory_def ctx_alice_def ctx_mallory_def rw_owner_def
  set_of_def sem_of_def sembuf_def mode_triad_def

text \<open>
  C9: permission checking is monotone in the requested mask. For every set, every
  credentials value and every pair of masks \<open>m\<close>, \<open>m'\<close> with \<open>m'\<close> a sub-mask of
  \<open>m\<close> (\<open>m\<close> is a superset of \<open>m'\<close>): if \<open>checkPerms\<close> grants \<open>m\<close>, it grants \<open>m'\<close>.
\<close>

theorem checkPerms_monotone:
  "SupersetOf m m' \<Longrightarrow> checkPerms s creds m \<Longrightarrow> checkPerms s creds m'"
  unfolding checkPerms_def Let_def
  by (auto split: if_splits dest: SupersetOf_trans)

theorem checkPerms_monotone_witness:
  "SupersetOf \<lparr>Read = True, Write = True, Execute = False\<rparr> \<lparr>Read = True, Write = False, Execute = False\<rparr>
   \<and> checkPerms (set_of []) alice \<lparr>Read = True, Write = True, Execute = False\<rparr>
   \<and> checkPerms (set_of []) alice \<lparr>Read = True, Write = False, Execute = False\<rparr>"
proof -
  have a: "SupersetOf \<lparr>Read = True, Write = True, Execute = False\<rparr> \<lparr>Read = True, Write = False, Execute = False\<rparr>"
    by (simp add: SupersetOf_def)
  have b: "checkPerms (set_of []) alice \<lparr>Read = True, Write = True, Execute = False\<rparr>"
    by (simp add: checkPerms_def SupersetOf_def ex_defs)
  from a b checkPerms_monotone [OF a b] show ?thesis by simp
qed

subsection \<open>Atomicity of the engine\<close>

lemma executeOps_loop_Inl:
  "executeOps_loop E s cs tmpVals ops = Returns (Inl ret) \<Longrightarrow>
     (ret = ((None, 0, Some ERANGE), s, cs)) \<or>
     (ret = ((None, 0, Some ErrWouldBlock), s, cs)) \<or>
     (\<exists>op. op \<in> set ops \<and> unat (SemNum op) < length (sems s) \<and>
           SemFlg op AND word_of_int (IPC_NOWAIT E) = 0 \<and> ret = executeOps_block s cs op)"
proof (induction E s cs tmpVals ops rule: executeOps_loop.induct)
  case (1 E s cs tmpVals)
  then show ?case by simp
next
  case (2 E s cs tmpVals op ops)
  then show ?case
    by (auto split: if_splits)
qed

lemma executeOps_loop_Inr_length:
  "executeOps_loop E s cs tmpVals ops = Returns (Inr tv) \<Longrightarrow> length tv = length tmpVals"
  by (induction E s cs tmpVals ops rule: executeOps_loop.induct) (auto split: if_splits)

lemma executeOps_Returns:
  assumes "executeOps E ctx s cs ops pid = Returns ret"
  shows "ret = ((None, 0, Some ERANGE), s, cs) \<or>
         ret = ((None, 0, Some ErrWouldBlock), s, cs) \<or>
         (\<exists>op. op \<in> set ops \<and> unat (SemNum op) < length (sems s) \<and>
               SemFlg op AND word_of_int (IPC_NOWAIT E) = 0 \<and> ret = executeOps_block s cs op) \<or>
         (\<exists>tv ss cs'. executeOps_loop E s cs (map sem_value (sems s)) ops = Returns (Inr tv) \<and>
               executeOps_commit pid 0 tv (sems s) cs = Returns (ss, cs') \<and>
               ret = ((None, 0, None), s\<lparr>sems := ss, opTime := NowFromContext ctx\<rparr>, cs'))"
proof (cases "executeOps_loop E s cs (map sem_value (sems s)) ops")
  case (Returns x)
  show ?thesis
  proof (cases x)
    case (Inl r)
    with Returns assms have "ret = r" by (simp add: executeOps_def)
    with executeOps_loop_Inl [of E s cs "map sem_value (sems s)" ops r] Returns Inl
    show ?thesis by auto
  next
    case (Inr tv)
    with Returns assms show ?thesis
      by (auto simp: executeOps_def split: outcome.splits)
  qed
next
  case Panics
  with assms show ?thesis by (simp add: executeOps_def)
next
  case Blocks
  with assms show ?thesis by (simp add: executeOps_def)
qed

lemma ExecuteOps_Returns:
  assumes "\<not> dead s" and "ExecuteOps E ctx s cs ops creds pid = Returns ret"
  shows "ret = ((None, 0, Some EFBIG), s, cs) \<or> ret = ((None, 0, Some EACCES), s, cs) \<or>
         executeOps E ctx s cs ops pid = Returns ret"
proof (cases "ExecuteOps_validate s True ops")
  case None
  with assms show ?thesis by (simp add: ExecuteOps_def)
next
  case (Some readOnly)
  show ?thesis
  proof (cases "checkPerms s creds \<lparr>Read = readOnly, Write = \<not> readOnly, Execute = False\<rparr>")
    case False
    with Some assms show ?thesis by (simp add: ExecuteOps_def)
  next
    case True
    show ?thesis
    proof (cases "executeOps E ctx s cs ops pid")
      case (Returns x)
      from executeOps_Returns [OF Returns] Returns Some True assms
      show ?thesis
        by (auto simp: ExecuteOps_def executeOps_block_def)
    next
      case Panics
      with Some True assms show ?thesis by (simp add: ExecuteOps_def)
    next
      case Blocks
      with Some True assms show ?thesis by (simp add: ExecuteOps_def)
    qed
  qed
qed

text \<open>
  C1: atomicity of \<open>ExecuteOps\<close> on a live set. A call that returns an error returns
  \<open>EFBIG\<close>, \<open>EACCES\<close>, \<open>ERANGE\<close> or \<open>ErrWouldBlock\<close> and no wake handle, and leaves
  the value vector, every pid and \<open>opTime\<close> as they were (indeed the whole set and
  every channel). A call that returns a wake handle returns no error, and the set differs
  from the one before the call in one place only: one new waiter, carrying the blocking
  operation's \<open>SemOp\<close> and the new, empty channel that is returned, stands at the tail
  of the queue of the semaphore whose index is returned.
\<close>

theorem ExecuteOps_atomic:
  assumes "\<not> dead s"
    and "ExecuteOps E ctx s cs ops creds pid = Returns ((ch, num, err), s', cs')"
  shows "(err \<noteq> None \<longrightarrow>
            (err = Some EFBIG \<or> err = Some EACCES \<or> err = Some ERANGE \<or> err = Some ErrWouldBlock) \<and>
            ch = None \<and>
            map sem_value (sems s') = map sem_value (sems s) \<and>
            map sem_pid (sems s') = map sem_pid (sems s) \<and>
            opTime s' = opTime s \<and> s' = s \<and> cs' = cs) \<and>
         (ch \<noteq> None \<longrightarrow>
            err = None \<and>
            (\<exists>op. op \<in> set ops \<and> unat (SemNum op) < length (sems s) \<and>
               num = ucast (SemNum op) \<and>
               ch = Some (length cs) \<and> cs' = cs @ [0] \<and>
               s' = s\<lparr>sems := (sems s)[unat (SemNum op) :=
                      (sems s ! unat (SemNum op))
                        \<lparr>sem_waiters := sem_waiters (sems s ! unat (SemNum op)) @
                           [\<lparr>w_value = SemOp op, w_ch = length cs\<rparr>]\<rparr>]\<rparr>))"
proof -
  from ExecuteOps_Returns [OF assms]
  consider "((ch, num, err), s', cs') = ((None, 0, Some EFBIG), s, cs)"
    | "((ch, num, err), s', cs') = ((None, 0, Some EACCES), s, cs)"
    | "executeOps E ctx s cs ops pid = Returns ((ch, num, err), s', cs')"
    by blast
  then show ?thesis
  proof cases
    case 1
    then show ?thesis by simp
  next
    case 2
    then show ?thesis by simp
  next
    case 3
    from executeOps_Returns [OF 3] show ?thesis
      by (auto simp: executeOps_block_def newWaiter_def make_chan_def)
  qed
qed

lemmas run_defs = ExecuteOps_def executeOps_def executeOps_block_def newWaiter_def make_chan_def
  findSem_def Size_def checkPerms_def checkCapability_def SupersetOf_def valueMax_def
  wakeWaiters_def send_def abs_int16_def

theorem ExecuteOps_atomic_witness:
  "\<not> dead (set_of [sem_of 1 [] 0, sem_of 1 [] 0, sem_of 1 [] 0]) \<and>
   ExecuteOps linux_extern ctx_alice (set_of [sem_of 1 [] 0, sem_of 1 [] 0, sem_of 1 [] 0]) []
       [sembuf 0 (- 1) 0, sembuf 1 (- 1) 0, sembuf 2 (- 2) 2048] alice 42
     = Returns ((None, 0, Some ErrWouldBlock),
         set_of [sem_of 1 [] 0, sem_of 1 [] 0, sem_of 1 [] 0], []) \<and>
   ExecuteOps linux_extern ctx_alice (set_of [sem_of 0 [] 0]) [] [sembuf 0 (- 1) 0] alice 42
     = Returns ((Some 0, 0, None), set_of [sem_of 0 [\<lparr>w_value = - 1, w_ch = 0\<rparr>] 0], [0])"
proof -
  have l1: "\<not> dead (set_of [sem_of 1 [] 0, sem_of 1 [] 0, sem_of 1 [] 0])"
    by (simp add: ex_defs)
  have l2: "\<not> dead (set_of [sem_of 0 [] 0])"
    by (simp add: ex_defs)
  have r1: "ExecuteOps linux_extern ctx_alice (set_of [sem_of 1 [] 0, sem_of 1 [] 0, sem_of 1 [] 0]) []
       [sembuf 0 (- 1) 0, sembuf 1 (- 1) 0, sembuf 2 (- 2) 2048] alice 42
     = Returns ((None, 0, Some ErrWouldBlock),
         set_of [sem_of 1 [] 0, sem_of 1 [] 0, sem_of 1 [] 0], [])"
    by (simp add: run_defs ex_defs)
  have r2: "ExecuteOps linux_extern ctx_alice (set_of [sem_of 0 [] 0]) [] [sembuf 0 (- 1) 0] alice 42
     = Returns ((Some 0, 0, None), set_of [sem_of 0 [\<lparr>w_value = - 1, w_ch = 0\<rparr>] 0], [0])"
    by (simp add: run_defs ex_defs)
  from ExecuteOps_atomic [OF l1 r1] ExecuteOps_atomic [OF l2 r2] l1 r1 r2
  show ?thesis by simp
qed

subsection \<open>The pid after a commit\<close>

lemma wakeWaiters_Returns:
  "wakeWaiters sm cs = Returns (sm', cs') \<Longrightarrow>
     sem_value sm' = sem_value sm \<and> sem_pid sm' = sem_pid sm"
  by (auto simp: wakeWaiters_def split: outcome.splits)

lemma executeOps_commit_Returns:
  "executeOps_commit pid i vs ss cs = Returns (ss', cs') \<Longrightarrow>
     length ss' = length ss \<and>
     (\<forall>j. i \<le> j \<and> j < i + length vs \<longrightarrow>
            j < length ss \<and> sem_pid (ss' ! j) = pid \<and> sem_value (ss' ! j) = vs ! (j - i)) \<and>
     (\<forall>j. j < i \<longrightarrow> ss' ! j = ss ! j)"
proof (induction pid i vs ss cs rule: executeOps_commit.induct)
  case (1 pid i ss cs)
  then show ?case by auto
next
  case (2 pid i v vs ss cs)
  from "2.prems" have i: "i < length ss"
    by (simp split: if_splits)
  from "2.prems" i obtain sm cs1 where
    w: "wakeWaiters ((ss ! i)\<lparr>sem_value := v\<rparr>) cs = Returns (sm, cs1)" and
    r: "executeOps_commit pid (Suc i) vs (ss[i := sm\<lparr>sem_pid := pid\<rparr>]) cs1 = Returns (ss', cs')"
    by (auto split: outcome.splits)
  from "2.IH" [OF i w refl r]
  have len: "length ss' = length ss"
    and up: "\<And>j. Suc i \<le> j \<Longrightarrow> j < Suc i + length vs \<Longrightarrow>
              j < length ss \<and> sem_pid (ss' ! j) = pid \<and> sem_value (ss' ! j) = vs ! (j - Suc i)"
    and low: "\<And>j. j < Suc i \<Longrightarrow> ss' ! j = (ss[i := sm\<lparr>sem_pid := pid\<rparr>]) ! j"
    by simp_all
  from wakeWaiters_Returns [OF w] have v: "sem_value sm = v" by simp
  have "j < length ss \<and> sem_pid (ss' ! j) = pid \<and> sem_value (ss' ! j) = (v # vs) ! (j - i)"
    if "i \<le> j" "j < i + length (v # vs)" for j
  proof (cases "j = i")
    case True
    with low [of i] i v show ?thesis by simp
  next
    case False
    with that up [of j] show ?thesis by (simp add: nth_Cons')
  qed
  moreover have "ss' ! j = ss ! j" if "j < i" for j
    using low [of j] that by simp
  ultimately show ?case using len by simp
qed

text \<open>
  C4, as amended: after a successful \<open>ExecuteOps\<close> (one that returns
  \<open>(nil, 0, nil)\<close>) the set has as many semaphores as before and every one of them has
  the caller's pid, whether or not its index appears in \<open>ops\<close>: the commit loop runs
  over the whole shadow vector. The claim as stated, that a semaphore whose index does
  not appear in \<open>ops\<close> keeps its pid, fails at the counterexample further down.
\<close>

theorem ExecuteOps_success_pid:
  assumes "ExecuteOps E ctx s cs ops creds pid = Returns ((None, 0, None), s', cs')"
  shows "length (sems s') = length (sems s) \<and>
         (\<forall>i. i < length (sems s') \<longrightarrow> sem_pid (sems s' ! i) = pid)"
proof -
  have live: "\<not> dead s"
    using assms by (auto simp: ExecuteOps_def)
  from ExecuteOps_Returns [OF live assms]
  have "executeOps E ctx s cs ops pid = Returns ((None, 0, None), s', cs')"
    by simp
  from executeOps_Returns [OF this]
  obtain tv ss where
    l: "executeOps_loop E s cs (map sem_value (sems s)) ops = Returns (Inr tv)" and
    c: "executeOps_commit pid 0 tv (sems s) cs = Returns (ss, cs')" and
    s': "s' = s\<lparr>sems := ss, opTime := NowFromContext ctx\<rparr>"
    by (auto simp: executeOps_block_def)
  from executeOps_loop_Inr_length [OF l] have "length tv = length (sems s)" by simp
  with executeOps_commit_Returns [OF c] s' show ?thesis by simp
qed

theorem ExecuteOps_success_pid_witness:
  "ExecuteOps linux_extern ctx_alice (set_of [sem_of 0 [] 7, sem_of 0 [] 7]) []
       [sembuf 0 1 0] alice 9
     = Returns ((None, 0, None),
         (set_of [sem_of 1 [] 9, sem_of 0 [] 9])\<lparr>opTime := 100\<rparr>, []) \<and>
   sem_pid (sems ((set_of [sem_of 1 [] 9, sem_of 0 [] 9])\<lparr>opTime := 100\<rparr>) ! 0) = 9 \<and>
   sem_pid (sems ((set_of [sem_of 1 [] 9, sem_of 0 [] 9])\<lparr>opTime := 100\<rparr>) ! 1) = 9"
proof -
  have r: "ExecuteOps linux_extern ctx_alice (set_of [sem_of 0 [] 7, sem_of 0 [] 7]) []
       [sembuf 0 1 0] alice 9
     = Returns ((None, 0, None),
         (set_of [sem_of 1 [] 9, sem_of 0 [] 9])\<lparr>opTime := 100\<rparr>, [])"
    by (simp add: run_defs ex_defs)
  from ExecuteOps_success_pid [OF r] r show ?thesis
    by (simp add: ex_defs)
qed

theorem ExecuteOps_pid_counterexample:
  "ExecuteOps linux_extern ctx_alice (set_of [sem_of 0 [] 7, sem_of 0 [] 7]) []
       [sembuf 0 1 0] alice 9
     = Returns ((None, 0, None),
         (set_of [sem_of 1 [] 9, sem_of 0 [] 9])\<lparr>opTime := 100\<rparr>, []) \<and>
   map SemNum [sembuf 0 1 0] = [0] \<and>
   sem_pid (sems (set_of [sem_of 0 [] 7, sem_of 0 [] 7]) ! 1) = 7 \<and>
   sem_pid (sems ((set_of [sem_of 1 [] 9, sem_of 0 [] 9])\<lparr>opTime := 100\<rparr>) ! 1) = 9"
  by (simp add: run_defs ex_defs)

subsection \<open>The no-wait contract\<close>

lemma ExecuteOps_validate_twin:
  "map SemNum ops' = map SemNum ops \<Longrightarrow> map SemOp ops' = map SemOp ops \<Longrightarrow>
     ExecuteOps_validate s readOnly ops' = ExecuteOps_validate s readOnly ops"
proof (induction ops' arbitrary: ops readOnly)
  case Nil
  then show ?case by simp
next
  case (Cons op' rest')
  then obtain op rest where ops: "ops = op # rest" by (cases ops) auto
  with Cons.prems have "SemNum op' = SemNum op" "SemOp op' = SemOp op"
    "map SemNum rest' = map SemNum rest" "map SemOp rest' = map SemOp rest"
    by simp_all
  with Cons.IH [of rest] ops show ?case by simp
qed

lemma executeOps_loop_twin:
  assumes "map SemNum ops' = map SemNum ops" and "map SemOp ops' = map SemOp ops"
    and "\<forall>op \<in> set ops. SemFlg op AND word_of_int (IPC_NOWAIT E) \<noteq> 0"
    and "executeOps_loop E s cs tmpVals ops' = Returns (Inl ((Some c, num, err), s', cs'))"
  shows "executeOps_loop E s cs tmpVals ops = Returns (Inl ((None, 0, Some ErrWouldBlock), s, cs))"
  using assms
proof (induction ops' arbitrary: ops tmpVals)
  case Nil
  then show ?case by simp
next
  case (Cons op' rest')
  then obtain op rest where ops: "ops = op # rest" by (cases ops) auto
  with Cons.prems have eq: "SemNum op' = SemNum op" "SemOp op' = SemOp op"
    and rest: "map SemNum rest' = map SemNum rest" "map SemOp rest' = map SemOp rest"
    and fl: "SemFlg op AND word_of_int (IPC_NOWAIT E) \<noteq> 0"
    and frest: "\<forall>op \<in> set rest. SemFlg op AND word_of_int (IPC_NOWAIT E) \<noteq> 0"
    by simp_all
  note IH = Cons.IH [OF rest frest]
  from Cons.prems(4) eq fl ops IH show ?case
    by (auto split: if_splits)
qed

lemma executeOps_twin:
  assumes "map SemNum ops' = map SemNum ops" and "map SemOp ops' = map SemOp ops"
    and "\<forall>op \<in> set ops. SemFlg op AND word_of_int (IPC_NOWAIT E) \<noteq> 0"
    and "executeOps E ctx s cs ops' pid = Returns ((Some c, num, err), s', cs')"
  shows "executeOps E ctx s cs ops pid = Returns ((None, 0, Some ErrWouldBlock), s, cs)"
proof -
  from assms(4) have
    "executeOps_loop E s cs (map sem_value (sems s)) ops' = Returns (Inl ((Some c, num, err), s', cs'))"
    by (auto simp: executeOps_def split: outcome.splits sum.splits)
  from executeOps_loop_twin [OF assms(1,2,3) this] show ?thesis
    by (simp add: executeOps_def)
qed

text \<open>
  C8: the no-wait contract. If every operation of the batch carries \<open>IPC_NOWAIT\<close>,
  then \<open>ExecuteOps\<close> never returns a wake handle, and a return of \<open>ErrWouldBlock\<close>
  leaves the set and the channels unchanged. Moreover every outcome that would otherwise
  block is converted: whenever a batch \<open>ops'\<close> with the same semaphore numbers and the
  same \<open>SemOp\<close>s (and any flags) returns a wake handle, the batch with the flag on every
  operation returns \<open>ErrWouldBlock\<close> with the set unchanged.
\<close>

theorem ExecuteOps_nowait:
  assumes "\<forall>op \<in> set ops. SemFlg op AND word_of_int (IPC_NOWAIT E) \<noteq> 0"
  shows "(\<forall>ch num err s' cs'.
            ExecuteOps E ctx s cs ops creds pid = Returns ((ch, num, err), s', cs') \<longrightarrow>
            ch = None \<and> (err = Some ErrWouldBlock \<longrightarrow> s' = s \<and> cs' = cs)) \<and>
         (\<forall>ops' c num err s' cs'.
            map SemNum ops' = map SemNum ops \<and> map SemOp ops' = map SemOp ops \<and>
            ExecuteOps E ctx s cs ops' creds pid = Returns ((Some c, num, err), s', cs') \<longrightarrow>
            ExecuteOps E ctx s cs ops creds pid = Returns ((None, 0, Some ErrWouldBlock), s, cs))"
proof -
  have no_handle: "ch = None \<and> (err = Some ErrWouldBlock \<longrightarrow> s' = s \<and> cs' = cs)"
    if r: "ExecuteOps E ctx s cs ops creds pid = Returns ((ch, num, err), s', cs')"
    for ch num err s' cs'
  proof (cases "dead s")
    case True
    with r show ?thesis by (simp add: ExecuteOps_def)
  next
    case False
    from ExecuteOps_Returns [OF False r]
    consider "((ch, num, err), s', cs') = ((None, 0, Some EFBIG), s, cs)"
      | "((ch, num, err), s', cs') = ((None, 0, Some EACCES), s, cs)"
      | "executeOps E ctx s cs ops pid = Returns ((ch, num, err), s', cs')"
      by blast
    then show ?thesis
    proof cases
      case 3
      from executeOps_Returns [OF 3] assms show ?thesis by auto
    qed simp_all
  qed
  have converted:
    "ExecuteOps E ctx s cs ops creds pid = Returns ((None, 0, Some ErrWouldBlock), s, cs)"
    if n: "map SemNum ops' = map SemNum ops" and o: "map SemOp ops' = map SemOp ops"
      and r: "ExecuteOps E ctx s cs ops' creds pid = Returns ((Some c, num, err), s', cs')"
    for ops' c num err s' cs'
  proof -
    have live: "\<not> dead s"
      using r by (auto simp: ExecuteOps_def)
    from ExecuteOps_Returns [OF live r]
    have x: "executeOps E ctx s cs ops' pid = Returns ((Some c, num, err), s', cs')"
      by simp
    note y = executeOps_twin [OF n o assms x]
    from r live obtain readOnly where
      v: "ExecuteOps_validate s True ops' = Some readOnly" and
      p: "checkPerms s creds \<lparr>Read = readOnly, Write = \<not> readOnly, Execute = False\<rparr>"
      by (auto simp: ExecuteOps_def split: option.splits if_splits)
    from v ExecuteOps_validate_twin [OF n o, of s True]
    have "ExecuteOps_validate s True ops = Some readOnly" by simp
    with p y live show ?thesis
      by (simp add: ExecuteOps_def)
  qed
  from no_handle converted show ?thesis by blast
qed

theorem ExecuteOps_nowait_witness:
  "list_all (\<lambda>op. SemFlg op AND word_of_int (IPC_NOWAIT linux_extern) \<noteq> 0)
      [sembuf 0 (- 1) 2048, sembuf 1 (- 1) 2048, sembuf 2 (- 2) 2048] \<and>
   map SemNum [sembuf 0 (- 1) 0, sembuf 1 (- 1) 0, sembuf 2 (- 2) 0]
     = map SemNum [sembuf 0 (- 1) 2048, sembuf 1 (- 1) 2048, sembuf 2 (- 2) 2048] \<and>
   map SemOp [sembuf 0 (- 1) 0, sembuf 1 (- 1) 0, sembuf 2 (- 2) 0]
     = map SemOp [sembuf 0 (- 1) 2048, sembuf 1 (- 1) 2048, sembuf 2 (- 2) 2048] \<and>
   ExecuteOps linux_extern ctx_alice (set_of [sem_of 1 [] 0, sem_of 1 [] 0, sem_of 1 [] 0]) []
       [sembuf 0 (- 1) 0, sembuf 1 (- 1) 0, sembuf 2 (- 2) 0] alice 42
     = Returns ((Some 0, 2, None),
         set_of [sem_of 1 [] 0, sem_of 1 [] 0, sem_of 1 [\<lparr>w_value = - 2, w_ch = 0\<rparr>] 0], [0]) \<and>
   ExecuteOps linux_extern ctx_alice (set_of [sem_of 1 [] 0, sem_of 1 [] 0, sem_of 1 [] 0]) []
       [sembuf 0 (- 1) 2048, sembuf 1 (- 1) 2048, sembuf 2 (- 2) 2048] alice 42
     = Returns ((None, 0, Some ErrWouldBlock),
         set_of [sem_of 1 [] 0, sem_of 1 [] 0, sem_of 1 [] 0], [])"
proof -
  have f: "\<forall>op \<in> set [sembuf 0 (- 1) 2048, sembuf 1 (- 1) 2048, sembuf 2 (- 2) 2048].
      SemFlg op AND word_of_int (IPC_NOWAIT linux_extern) \<noteq> 0"
    by (simp add: ex_defs)
  have m: "map SemNum [sembuf 0 (- 1) 0, sembuf 1 (- 1) 0, sembuf 2 (- 2) 0]
       = map SemNum [sembuf 0 (- 1) 2048, sembuf 1 (- 1) 2048, sembuf 2 (- 2) 2048]"
    "map SemOp [sembuf 0 (- 1) 0, sembuf 1 (- 1) 0, sembuf 2 (- 2) 0]
       = map SemOp [sembuf 0 (- 1) 2048, sembuf 1 (- 1) 2048, sembuf 2 (- 2) 2048]"
    by (simp_all add: ex_defs)
  have r: "ExecuteOps linux_extern ctx_alice (set_of [sem_of 1 [] 0, sem_of 1 [] 0, sem_of 1 [] 0]) []
       [sembuf 0 (- 1) 0, sembuf 1 (- 1) 0, sembuf 2 (- 2) 0] alice 42
     = Returns ((Some 0, 2, None),
         set_of [sem_of 1 [] 0, sem_of 1 [] 0, sem_of 1 [\<lparr>w_value = - 2, w_ch = 0\<rparr>] 0], [0])"
    by (simp add: run_defs ex_defs)
  from ExecuteOps_nowait [OF f, of ctx_alice "set_of [sem_of 1 [] 0, sem_of 1 [] 0, sem_of 1 [] 0]"
      "[]" alice 42] m r
  have "ExecuteOps linux_extern ctx_alice (set_of [sem_of 1 [] 0, sem_of 1 [] 0, sem_of 1 [] 0]) []
       [sembuf 0 (- 1) 2048, sembuf 1 (- 1) 2048, sembuf 2 (- 2) 2048] alice 42
     = Returns ((None, 0, Some ErrWouldBlock),
         set_of [sem_of 1 [] 0, sem_of 1 [] 0, sem_of 1 [] 0], [])"
    by blast
  with f m r show ?thesis by (simp add: list_all_iff)
qed

subsection \<open>Giving up a wait\<close>

lemma AbortWait_loop_eq:
  "AbortWait_loop ch ws =
     takeWhile (\<lambda>w. w_ch w \<noteq> ch) ws @ tl (dropWhile (\<lambda>w. w_ch w \<noteq> ch) ws)"
  by (induction ws) auto

lemma AbortWait_loop_no_match:
  "ch \<notin> w_ch ` set ws \<Longrightarrow> AbortWait_loop ch ws = ws"
  by (induction ws) auto

lemma Set_sems_update_id:
  "n < length (sems s) \<Longrightarrow>
     s\<lparr>sems := (sems s)[n := (sems s ! n)\<lparr>sem_waiters := sem_waiters (sems s ! n)\<rparr>]\<rparr> = s"
  by simp

text \<open>
  C10: \<open>AbortWait\<close> indexes \<open>s.sems\<close> without a bounds check. For \<open>num\<close> outside
  \<open>[0, size)\<close> it panics, whereas \<open>findSem\<close> is \<open>nil\<close> there and \<open>GetVal\<close>,
  \<open>GetPID\<close> and \<open>SetVal\<close> return an error, which is \<open>ERANGE\<close> for every caller that
  passes the permission check (\<open>SetVal\<close> also returns \<open>ERANGE\<close> for a bad value, which
  it tests first; a caller without permission gets \<open>EACCES\<close>). For \<open>num\<close> within
  \<open>[0, size)\<close> it returns the set with the first waiter whose channel is \<open>ch\<close> taken
  out of the queue of \<open>s.sems[num]\<close>, and the set itself when no queued waiter has that
  channel.
\<close>

theorem AbortWait_bounds:
  "(sint num < 0 \<or> int (length (sems s)) \<le> sint num \<longrightarrow>
      AbortWait s num ch = Panics \<and>
      findSem s num = None \<and>
      GetVal s num creds =
        (0, Some (if checkPerms s creds \<lparr>Read = True, Write = False, Execute = False\<rparr>
                  then ERANGE else EACCES)) \<and>
      GetPID s num creds =
        (0, Some (if checkPerms s creds \<lparr>Read = True, Write = False, Execute = False\<rparr>
                  then ERANGE else EACCES)) \<and>
      SetVal E ctx s cs num val creds pid =
        Returns (Some (if sint val < 0 \<or> valueMax E < sint val \<or>
                          checkPerms s creds \<lparr>Read = False, Write = True, Execute = False\<rparr>
                       then ERANGE else EACCES), s, cs)) \<and>
   (0 \<le> sint num \<and> sint num < int (length (sems s)) \<longrightarrow>
      AbortWait s num ch =
        Returns (s\<lparr>sems := (sems s)[nat (sint num) :=
          (sems s ! nat (sint num))
            \<lparr>sem_waiters :=
               takeWhile (\<lambda>w. w_ch w \<noteq> ch) (sem_waiters (sems s ! nat (sint num))) @
               tl (dropWhile (\<lambda>w. w_ch w \<noteq> ch) (sem_waiters (sems s ! nat (sint num))))\<rparr>]\<rparr>) \<and>
      (ch \<notin> w_ch ` set (sem_waiters (sems s ! nat (sint num))) \<longrightarrow>
         AbortWait s num ch = Returns s))"
proof (intro conjI impI)
  assume out: "sint num < 0 \<or> int (length (sems s)) \<le> sint num"
  then show "AbortWait s num ch = Panics"
    by (simp add: AbortWait_def)
  from out show f: "findSem s num = None"
    by (simp add: findSem_def Size_def)
  from f show "GetVal s num creds =
        (0, Some (if checkPerms s creds \<lparr>Read = True, Write = False, Execute = False\<rparr>
                  then ERANGE else EACCES))"
    by (simp add: GetVal_def)
  from f show "GetPID s num creds =
        (0, Some (if checkPerms s creds \<lparr>Read = True, Write = False, Execute = False\<rparr>
                  then ERANGE else EACCES))"
    by (simp add: GetPID_def)
  from f show "SetVal E ctx s cs num val creds pid =
        Returns (Some (if sint val < 0 \<or> valueMax E < sint val \<or>
                          checkPerms s creds \<lparr>Read = False, Write = True, Execute = False\<rparr>
                       then ERANGE else EACCES), s, cs)"
    by (simp add: SetVal_def)
next
  assume inr: "0 \<le> sint num \<and> sint num < int (length (sems s))"
  then show "AbortWait s num ch =
        Returns (s\<lparr>sems := (sems s)[nat (sint num) :=
          (sems s ! nat (sint num))
            \<lparr>sem_waiters :=
               takeWhile (\<lambda>w. w_ch w \<noteq> ch) (sem_waiters (sems s ! nat (sint num))) @
               tl (dropWhile (\<lambda>w. w_ch w \<noteq> ch) (sem_waiters (sems s ! nat (sint num))))\<rparr>]\<rparr>)"
    by (simp add: AbortWait_def AbortWait_loop_eq)
next
  assume inr: "0 \<le> sint num \<and> sint num < int (length (sems s))"
    and nm: "ch \<notin> w_ch ` set (sem_waiters (sems s ! nat (sint num)))"
  from inr have n: "nat (sint num) < length (sems s)" by linarith
  from inr show "AbortWait s num ch = Returns s"
    by (simp add: AbortWait_def AbortWait_loop_no_match [OF nm] Set_sems_update_id [OF n])
qed

theorem AbortWait_bounds_witness:
  "(sint (1 :: int32) < 0 \<or> int (length (sems parked)) \<le> sint (1 :: int32)) \<and>
   AbortWait parked 1 1 = Panics \<and>
   GetVal parked 1 alice = (0, Some ERANGE) \<and>
   GetPID parked 1 alice = (0, Some ERANGE) \<and>
   SetVal linux_extern ctx_alice parked [0, 0] 1 5 alice 42 = Returns (Some ERANGE, parked, [0, 0]) \<and>
   0 \<le> sint (0 :: int32) \<and> sint (0 :: int32) < int (length (sems parked)) \<and>
   AbortWait parked 0 1 = Returns (set_of [sem_of 0 [\<lparr>w_value = - 1, w_ch = 0\<rparr>] 0]) \<and>
   7 \<notin> w_ch ` set (sem_waiters (sems parked ! nat (sint (0 :: int32)))) \<and>
   AbortWait parked 0 7 = Returns parked"
proof -
  have out: "sint (1 :: int32) < 0 \<or> int (length (sems parked)) \<le> sint (1 :: int32)"
    by (simp add: parked_def ex_defs)
  have inr: "0 \<le> sint (0 :: int32) \<and> sint (0 :: int32) < int (length (sems parked))"
    by (simp add: parked_def ex_defs)
  have nm: "7 \<notin> w_ch ` set (sem_waiters (sems parked ! nat (sint (0 :: int32))))"
    by (simp add: parked_def ex_defs)
  have rd: "checkPerms parked alice \<lparr>Read = True, Write = False, Execute = False\<rparr>"
    by (simp add: checkPerms_def SupersetOf_def parked_def ex_defs)
  have wr: "checkPerms parked alice \<lparr>Read = False, Write = True, Execute = False\<rparr>"
    by (simp add: checkPerms_def SupersetOf_def parked_def ex_defs)
  from AbortWait_bounds [where num = 1 and s = parked and ch = 1 and creds = alice and E = linux_extern
      and val = 5 and ctx = ctx_alice and cs = "[0, 0]" and pid = 42] out rd wr
  have a: "AbortWait parked 1 1 = Panics"
    "GetVal parked 1 alice = (0, Some ERANGE)"
    "GetPID parked 1 alice = (0, Some ERANGE)"
    "SetVal linux_extern ctx_alice parked [0, 0] 1 5 alice 42 = Returns (Some ERANGE, parked, [0, 0])"
    by simp_all
  from AbortWait_bounds [where num = 0 and s = parked and ch = 1 and creds = alice and E = linux_extern
      and val = 5 and ctx = ctx_alice and cs = "[0, 0]" and pid = 42] inr
  have b: "AbortWait parked 0 1 = Returns (set_of [sem_of 0 [\<lparr>w_value = - 1, w_ch = 0\<rparr>] 0])"
    by (simp add: parked_def ex_defs)
  from AbortWait_bounds [where num = 0 and s = parked and ch = 7 and creds = alice and E = linux_extern
      and val = 5 and ctx = ctx_alice and cs = "[0, 0]" and pid = 42] inr nm
  have c: "AbortWait parked 0 7 = Returns parked"
    by blast
  from out inr nm a b c show ?thesis by blast
qed

subsection \<open>The range of the values\<close>

text \<open>
  Signed sixteen-bit arithmetic where nothing wraps, for the dry run of \<open>executeOps\<close>.
\<close>

lemma sint_int16_bounds:
  "- 32768 \<le> sint (x :: int16)" "sint (x :: int16) \<le> 32767"
  using sint_ge [of x] sint_lt [of x] by simp_all

lemma sint_add_int16:
  "- 32768 \<le> sint a + sint b \<Longrightarrow> sint a + sint b \<le> 32767 \<Longrightarrow>
     sint (a + b :: int16) = sint a + sint b"
  by (simp add: sint_word_ariths signed_take_bit_int_eq_self_iff)

lemma sint_sub_int16:
  "- 32768 \<le> sint a - sint b \<Longrightarrow> sint a - sint b \<le> 32767 \<Longrightarrow>
     sint (a - b :: int16) = sint a - sint b"
  by (simp add: sint_word_ariths signed_take_bit_int_eq_self_iff)

lemma sint_neg_int16:
  assumes "(x :: int16) \<noteq> - 32768"
  shows "sint (- x) = - sint x"
proof -
  have "sint x = sint (- 32768 :: int16) \<Longrightarrow> x = - 32768"
    by (rule signed_word_eqI)
  moreover have "sint (- 32768 :: int16) = - 32768" by simp
  ultimately have "sint x \<noteq> - 32768"
    using assms by metis
  with sint_int16_bounds [of x] have "- 32767 \<le> sint x" by simp
  with sint_int16_bounds [of x] show ?thesis
    by (simp add: sint_word_ariths signed_take_bit_int_eq_self_iff)
qed

lemma sint_of_int_int16:
  "- 32768 \<le> v \<Longrightarrow> v \<le> 32767 \<Longrightarrow> sint (word_of_int v :: int16) = v"
  by (simp add: sint_word_ariths signed_take_bit_int_eq_self_iff signed_of_int)

lemma sint_uint_int16:
  "uint (v :: int16) \<le> 32767 \<Longrightarrow> sint v = uint v"
  by (metis sint_of_int_int16 uint_ge_0 word_of_int_uint order_trans [of "- 32768" 0] zle_diff1_eq
      less_eq_int_code(1) neg_numeral_le_zero)

lemma sint_zero_int16: "sint (x :: int16) = 0 \<longleftrightarrow> x = 0"
  by (auto intro: signed_word_eqI)

lemma decrement_in_range:
  assumes "0 \<le> sint (t :: int16)" and "sint t \<le> vmax" and "vmax \<le> 32767"
    and "sint (d :: int16) < 0" and "d \<noteq> - 32768" and "\<not> sint t < sint (- d)"
  shows "0 \<le> sint (t + d) \<and> sint (t + d) \<le> vmax"
proof -
  from assms(5) have n: "sint (- d) = - sint d" by (rule sint_neg_int16)
  with assms have "0 \<le> sint t + sint d" "sint t + sint d \<le> vmax" by linarith+
  with assms(3) sint_add_int16 [of t d] show ?thesis by simp
qed

lemma increment_in_range:
  assumes "0 \<le> sint (t :: int16)" and "0 \<le> vmax" and "vmax \<le> 32767"
    and "0 < sint (d :: int16)" and "\<not> sint (word_of_int vmax - d) < sint t"
  shows "0 \<le> sint (t + d) \<and> sint (t + d) \<le> vmax"
proof -
  have v: "sint (word_of_int vmax :: int16) = vmax"
    using assms(2,3) by (intro sint_of_int_int16) simp_all
  have "sint (word_of_int vmax - d) = vmax - sint d"
    using sint_sub_int16 [of "word_of_int vmax" d] v assms(2,3,4) sint_int16_bounds [of d]
    by simp
  with assms have "0 \<le> sint t + sint d" "sint t + sint d \<le> vmax" by linarith+
  with assms(3) sint_add_int16 [of t d] show ?thesis by simp
qed

lemma executeOps_loop_range:
  assumes "0 \<le> valueMax E" and "valueMax E \<le> 32767"
    and "\<forall>v \<in> set tmpVals. 0 \<le> sint v \<and> sint v \<le> valueMax E"
    and "\<forall>op \<in> set ops. SemOp op \<noteq> - 32768"
    and "executeOps_loop E s cs tmpVals ops = Returns (Inr tv)"
  shows "\<forall>v \<in> set tv. 0 \<le> sint v \<and> sint v \<le> valueMax E"
  using assms(3,4,5)
proof (induction ops arbitrary: tmpVals)
  case Nil
  then show ?case by simp
next
  case (Cons op ops)
  let ?n = "unat (SemNum op)"
  let ?x = "tmpVals ! ?n + SemOp op"
  from Cons.prems(2) have m: "SemOp op \<noteq> - 32768" and rest: "\<forall>op \<in> set ops. SemOp op \<noteq> - 32768"
    by simp_all
  have upd: "\<forall>v \<in> set (tmpVals[?n := ?x]). 0 \<le> sint v \<and> sint v \<le> valueMax E"
    if x: "?n < length tmpVals \<longrightarrow> 0 \<le> sint ?x \<and> sint ?x \<le> valueMax E"
  proof (cases "?n < length tmpVals")
    case True
    with x Cons.prems(1) set_update_subset_insert [of tmpVals ?n ?x] show ?thesis
      by auto
  next
    case False
    then have "tmpVals[?n := ?x] = tmpVals"
      by (intro list_update_beyond) simp
    with Cons.prems(1) show ?thesis by simp
  qed
  consider (zero) "SemOp op = 0"
    | (neg) "SemOp op \<noteq> 0" "sint (SemOp op) < 0"
    | (pos) "SemOp op \<noteq> 0" "\<not> sint (SemOp op) < 0"
    by blast
  then show ?case
  proof cases
    case zero
    with Cons.prems(3) have "executeOps_loop E s cs tmpVals ops = Returns (Inr tv)"
      by (simp split: if_splits)
    from Cons.IH [OF Cons.prems(1) rest this] show ?thesis .
  next
    case neg
    with Cons.prems(3) have nb: "\<not> sint (tmpVals ! ?n) < sint (- SemOp op)"
      and r: "executeOps_loop E s cs (tmpVals[?n := ?x]) ops = Returns (Inr tv)"
      by (simp_all split: if_splits)
    have "?n < length tmpVals \<longrightarrow> 0 \<le> sint ?x \<and> sint ?x \<le> valueMax E"
      using decrement_in_range [OF _ _ assms(2) neg(2) m nb] Cons.prems(1) by simp
    from Cons.IH [OF upd [OF this] rest r] show ?thesis .
  next
    case pos
    then have p: "0 < sint (SemOp op)"
      using sint_zero_int16 [of "SemOp op"] by linarith
    from pos Cons.prems(3) have nb: "\<not> sint (word_of_int (valueMax E) - SemOp op) < sint (tmpVals ! ?n)"
      and r: "executeOps_loop E s cs (tmpVals[?n := ?x]) ops = Returns (Inr tv)"
      by (simp_all split: if_splits)
    have "?n < length tmpVals \<longrightarrow> 0 \<le> sint ?x \<and> sint ?x \<le> valueMax E"
      using increment_in_range [OF _ assms(1,2) p nb] Cons.prems(1) by simp
    from Cons.IH [OF upd [OF this] rest r] show ?thesis .
  qed
qed

lemma values_in_range_map:
  "values_in_range E s \<longleftrightarrow>
     (\<forall>v \<in> set (map sem_value (sems s)). 0 \<le> sint v \<and> sint v \<le> valueMax E)"
  by (auto simp: values_in_range_def list_all_iff)

lemma executeOps_commit_values:
  assumes "executeOps_commit pid 0 tv ss cs = Returns (ss', cs')" and "length tv = length ss"
  shows "map sem_value ss' = tv"
proof (rule nth_equalityI)
  from executeOps_commit_Returns [OF assms(1)] assms(2)
  show "length (map sem_value ss') = length tv" by simp
  fix j
  assume "j < length (map sem_value ss')"
  with executeOps_commit_Returns [OF assms(1)] assms(2)
  show "map sem_value ss' ! j = tv ! j" by simp
qed

lemma SetValAll_loop_Returns:
  "SetValAll_loop pid i vals ss cs = Returns (ss', cs') \<Longrightarrow>
     length ss' = length ss \<and>
     (\<forall>j. i \<le> j \<and> j < i + length vals \<longrightarrow>
            j < length ss \<and> sem_pid (ss' ! j) = pid \<and> sem_value (ss' ! j) = vals ! (j - i)) \<and>
     (\<forall>j. j < i \<longrightarrow> ss' ! j = ss ! j)"
proof (induction pid i vals ss cs rule: SetValAll_loop.induct)
  case (1 pid i ss cs)
  then show ?case by auto
next
  case (2 pid i val vals ss cs)
  from "2.prems" have i: "i < length ss"
    by (simp split: if_splits)
  from "2.prems" i obtain sm cs1 where
    w: "wakeWaiters ((ss ! i)\<lparr>sem_value := val, sem_pid := pid\<rparr>) cs = Returns (sm, cs1)" and
    r: "SetValAll_loop pid (Suc i) vals (ss[i := sm]) cs1 = Returns (ss', cs')"
    by (auto split: outcome.splits)
  from "2.IH" [OF i w refl r]
  have len: "length ss' = length ss"
    and up: "\<And>j. Suc i \<le> j \<Longrightarrow> j < Suc i + length vals \<Longrightarrow>
              j < length ss \<and> sem_pid (ss' ! j) = pid \<and> sem_value (ss' ! j) = vals ! (j - Suc i)"
    and low: "\<And>j. j < Suc i \<Longrightarrow> ss' ! j = (ss[i := sm]) ! j"
    by simp_all
  from wakeWaiters_Returns [OF w] have v: "sem_value sm = val" "sem_pid sm = pid" by simp_all
  have "j < length ss \<and> sem_pid (ss' ! j) = pid \<and> sem_value (ss' ! j) = (val # vals) ! (j - i)"
    if "i \<le> j" "j < i + length (val # vals)" for j
  proof (cases "j = i")
    case True
    with low [of i] i v show ?thesis by simp
  next
    case False
    with that up [of j] show ?thesis by (simp add: nth_Cons')
  qed
  moreover have "ss' ! j = ss ! j" if "j < i" for j
    using low [of j] that by simp
  ultimately show ?case using len by simp
qed

lemma SetValAll_loop_values:
  assumes "SetValAll_loop pid 0 vals ss cs = Returns (ss', cs')" and "length vals = length ss"
  shows "map sem_value ss' = vals"
proof (rule nth_equalityI)
  from SetValAll_loop_Returns [OF assms(1)] assms(2)
  show "length (map sem_value ss') = length vals" by simp
  fix j
  assume "j < length (map sem_value ss')"
  with SetValAll_loop_Returns [OF assms(1)] assms(2)
  show "map sem_value ss' ! j = vals ! j" by simp
qed

text \<open>
  Apart from the operation \<open>-32768\<close>, the engine and the setters keep every value in
  \<open>[0, valueMax]\<close>, for any \<open>valueMax\<close> that fits an \<open>int16\<close>. The assumption on
  \<open>SemOp\<close> cannot be dropped, as the evaluation at the end of this section shows.
\<close>

lemma ExecuteOps_values_in_range:
  assumes vm: "0 \<le> valueMax E" "valueMax E \<le> 32767"
    and inv: "values_in_range E s"
    and ops: "\<forall>op \<in> set ops. SemOp op \<noteq> - 32768"
    and ret: "ExecuteOps E ctx s cs ops creds pid = Returns (ret, s', cs')"
  shows "values_in_range E s'"
proof (cases "dead s")
  case True
  with ret inv show ?thesis by (simp add: ExecuteOps_def)
next
  case False
  from ExecuteOps_Returns [OF False ret]
  consider "s' = s" | "executeOps E ctx s cs ops pid = Returns (ret, s', cs')"
    by auto
  then show ?thesis
  proof cases
    case 1
    with inv show ?thesis by simp
  next
    case 2
    from executeOps_Returns [OF 2]
    consider "s' = s"
      | op where "(ret, s', cs') = executeOps_block s cs op" "unat (SemNum op) < length (sems s)"
      | tv ss where "executeOps_loop E s cs (map sem_value (sems s)) ops = Returns (Inr tv)"
          "executeOps_commit pid 0 tv (sems s) cs = Returns (ss, cs')"
          "s' = s\<lparr>sems := ss, opTime := NowFromContext ctx\<rparr>"
      by auto
    then show ?thesis
    proof cases
      case 1
      with inv show ?thesis by simp
    next
      case 2
      then have "map sem_value (sems s') = map sem_value (sems s)"
        by (simp add: executeOps_block_def map_update list_update_same_conv)
      with inv show ?thesis by (simp add: values_in_range_map)
    next
      case 3
      from inv have "\<forall>v \<in> set (map sem_value (sems s)). 0 \<le> sint v \<and> sint v \<le> valueMax E"
        by (simp add: values_in_range_map)
      from executeOps_loop_range [OF vm this ops 3(1)]
      have tv: "\<forall>v \<in> set tv. 0 \<le> sint v \<and> sint v \<le> valueMax E" .
      from executeOps_loop_Inr_length [OF 3(1)] have "length tv = length (sems s)" by simp
      from executeOps_commit_values [OF 3(2) this] 3(3) tv show ?thesis
        by (simp add: values_in_range_map)
    qed
  qed
qed

lemma SetVal_values_in_range:
  assumes inv: "values_in_range E s"
    and ret: "SetVal E ctx s cs num val creds pid = Returns (err, s', cs')"
  shows "values_in_range E s'"
proof (cases "err")
  case (Some e)
  with ret have "s' = s"
    by (auto simp: SetVal_def split: if_splits option.splits outcome.splits)
  with inv show ?thesis by simp
next
  case None
  with ret obtain i sm where v: "\<not> (sint val < 0 \<or> valueMax E < sint val)"
    and i: "findSem s num = Some i"
    and w: "wakeWaiters ((sems s ! i)\<lparr>sem_value := val, sem_pid := pid\<rparr>) cs = Returns (sm, cs')"
    and s': "s' = s\<lparr>sems := (sems s)[i := sm], changeTime := NowFromContext ctx\<rparr>"
    by (auto simp: SetVal_def split: if_splits option.splits outcome.splits)
  from wakeWaiters_Returns [OF w] have "sem_value sm = val" by simp
  with v have "0 \<le> sint (sem_value sm) \<and> sint (sem_value sm) \<le> valueMax E" by simp
  with inv s' set_update_subset_insert [of "sems s" i sm] show ?thesis
    by (auto simp: values_in_range_def list_all_iff)
qed

lemma SetValAll_values_in_range:
  assumes vm: "valueMax E \<le> 32767"
    and inv: "values_in_range E s"
    and ret: "SetValAll E ctx s cs vals creds pid = Returns (err, s', cs')"
  shows "values_in_range E s'"
proof (cases "err")
  case (Some e)
  with ret have "s' = s"
    by (auto simp: SetValAll_def split: if_splits option.splits outcome.splits)
  with inv show ?thesis by simp
next
  case None
  with ret obtain ss where len: "length vals = length (sems s)"
    and ok: "\<not> list_ex (\<lambda>val. valueMax E < uint val) vals"
    and l: "SetValAll_loop pid 0 vals (sems s) cs = Returns (ss, cs')"
    and s': "s' = s\<lparr>sems := ss, changeTime := NowFromContext ctx\<rparr>"
    by (auto simp: SetValAll_def Size_def split: if_splits option.splits outcome.splits)
  have "0 \<le> sint v \<and> sint v \<le> valueMax E" if "v \<in> set vals" for v
  proof -
    from ok that have u: "uint v \<le> valueMax E" by (auto simp: list_ex_iff)
    with vm sint_uint_int16 [of v] show ?thesis by simp
  qed
  with SetValAll_loop_values [OF l len] s' show ?thesis
    by (simp add: values_in_range_map)
qed

lemma newSet_literal_in_range:
  "0 \<le> valueMax E \<Longrightarrow> values_in_range E (newSet_literal ctx r k own prm nsems)"
  by (simp add: values_in_range_def newSet_literal_def list_all_iff)

lemmas reg_defs = FindOrCreate_def FindOrCreate_create_def newSet_def newSet_literal_def
  NewRegistry_def findByKey_def semsMax_def setsMax_def semsTotalMax_def totalSems_def
  findFirstAvailableIndex_def findFirstAvailableIndex_loop.simps

text \<open>
  C2 fails in the code. In \<open>executeOps\<close> the test \<open>-op.SemOp > valueMax\<close> negates an
  \<open>int16\<close>; for \<open>op.SemOp = -32768\<close> the negation wraps to \<open>-32768\<close>, so neither the
  range test nor the test against the shadow value fires, and the operation is committed.
  On a set that \<open>FindOrCreate\<close> has just created (one semaphore, value 0) the batch
  \<open>[(0, -32768, 0)]\<close> succeeds and leaves the value \<open>-32768\<close>, which \<open>GetVal\<close> returns;
  \<open>GetValAll\<close> returns it as 32768, above \<open>SEM_VALUE_MAX\<close> = 32767.
\<close>

theorem ExecuteOps_negates_min_int16:
  "FindOrCreate linux_extern ctx_alice (NewRegistry 0) 7 1 0x180 False True False
     = Some (Returns ((Some (set_of [sem_of 0 [] 0]), None),
         \<lparr>userNS = 0, semaphores = [(1, set_of [sem_of 0 [] 0])], lastIDUsed = 1,
          indexes = [(0, 1)]\<rparr>)) \<and>
   ExecuteOps linux_extern ctx_alice (set_of [sem_of 0 [] 0]) [] [sembuf 0 (- 32768) 0] alice 42
     = Returns ((None, 0, None), (set_of [sem_of (- 32768) [] 42])\<lparr>opTime := 100\<rparr>, []) \<and>
   GetVal ((set_of [sem_of (- 32768) [] 42])\<lparr>opTime := 100\<rparr>) 0 alice = (- 32768, None) \<and>
   GetValAll ((set_of [sem_of (- 32768) [] 42])\<lparr>opTime := 100\<rparr>) alice = ([32768], None) \<and>
   sint (- 32768 :: int16) = - 32768 \<and> uint (32768 :: uint16) = 32768 \<and>
   valueMax linux_extern = 32767"
  by (simp add: reg_defs run_defs ex_defs newSet_loop.simps GetVal_def GetValAll_def)

subsection \<open>Destruction of a set\<close>

lemma send_Returns:
  "send cs c = Returns cs' \<longleftrightarrow> c < length cs \<and> cs ! c = 0 \<and> cs' = cs[c := Suc 0]"
  by (auto simp: send_def)

lemma send_cases:
  "send cs c = Panics \<longleftrightarrow> False"
  by (simp add: send_def)

lemma destroy_notify_signals:
  "destroy_notify ws cs = Returns cs' \<Longrightarrow>
     length cs' = length cs \<and>
     (\<forall>c. c < length cs \<longrightarrow> cs' ! c = cs ! c + count_list (map w_ch ws) c)"
proof (induction ws arbitrary: cs)
  case Nil
  then show ?case by simp
next
  case (Cons w ws)
  from Cons.prems obtain cs1 where
    s: "send cs (w_ch w) = Returns cs1" and r: "destroy_notify ws cs1 = Returns cs'"
    by (auto split: outcome.splits)
  from s have cs1: "w_ch w < length cs" "cs1 = cs[w_ch w := Suc 0]" "cs ! w_ch w = 0"
    by (simp_all add: send_Returns)
  from Cons.IH [OF r] cs1 show ?case
    by (auto simp: nth_list_update)
qed

lemma destroy_notify_idle:
  "distinct (map w_ch ws) \<Longrightarrow>
   list_all (\<lambda>w. w_ch w < length cs \<and> cs ! w_ch w = 0) ws \<Longrightarrow>
     \<exists>cs'. destroy_notify ws cs = Returns cs'"
proof (induction ws arbitrary: cs)
  case Nil
  then show ?case by simp
next
  case (Cons w ws)
  from Cons.prems have s: "send cs (w_ch w) = Returns (cs[w_ch w := Suc 0])"
    by (simp add: send_Returns)
  from Cons.prems have
    "list_all (\<lambda>x. w_ch x < length (cs[w_ch w := Suc 0]) \<and> cs[w_ch w := Suc 0] ! w_ch x = 0) ws"
    by (auto simp: list_all_iff nth_list_update)
  with Cons.IH [of "cs[w_ch w := Suc 0]"] Cons.prems(1) s show ?case
    by auto
qed

lemma destroy_notify_append:
  "destroy_notify (ws @ ws') cs =
     (case destroy_notify ws cs of
        Returns cs' \<Rightarrow> destroy_notify ws' cs'
      | Panics \<Rightarrow> Panics
      | Blocks \<Rightarrow> Blocks)"
  by (induction ws arbitrary: cs) (auto split: outcome.splits)

lemma destroy_loop_notify:
  "destroy_loop ss cs = destroy_notify (concat (map sem_waiters ss)) cs"
  by (induction ss arbitrary: cs) (auto simp: destroy_notify_append split: outcome.splits)

lemma destroy_Returns:
  "destroy s cs = Returns (s', cs') \<Longrightarrow>
     dead s' \<and> length cs' = length cs \<and>
     (\<forall>c. c < length cs \<longrightarrow> cs' ! c = cs ! c + count_list (map w_ch (queued s)) c)"
  using destroy_notify_signals [of "queued s" cs cs']
  by (auto simp: destroy_def destroy_loop_notify queued_def split: outcome.splits)

lemma destroy_idle:
  "queues_idle s cs \<Longrightarrow> \<exists>s' cs'. destroy s cs = Returns (s', cs')"
  using destroy_notify_idle [of "queued s" cs]
  by (auto simp: destroy_def destroy_loop_notify queued_def queues_idle_def)

lemma ExecuteOps_dead:
  "dead s \<Longrightarrow> ExecuteOps E ctx s cs ops creds pid = Returns ((None, 0, Some EIDRM), s, cs)"
  by (simp add: ExecuteOps_def)

lemma RemoveID_destroy:
  "RemoveID r cs ident creds = Returns (None, r', so, cs') \<Longrightarrow>
     \<exists>st s'. FindByID r ident = Some st \<and> so = Some s' \<and> destroy st cs = Returns (s', cs')"
  by (auto simp: RemoveID_def FindByID_def split: option.splits if_splits outcome.splits)

lemma count_list_distinct:
  "distinct xs \<Longrightarrow> count_list xs x = (if x \<in> set xs then 1 else 0)"
  by (induction xs) auto

text \<open>
  C3, as amended: once \<open>dead\<close> is true every subsequent \<open>ExecuteOps\<close> on the set fails
  with \<open>EIDRM\<close> and changes nothing; whenever \<open>destroy\<close> returns, the set is dead and
  every channel has received exactly one signal for each waiter queued on it; when the
  channels of the queued waiters are pairwise different, made and empty, \<open>destroy\<close> does
  return and leaves exactly one signal in the channel of every queued waiter and no other
  channel changed; and a successful \<open>RemoveID\<close> returns the set it found as \<open>destroy\<close>
  leaves it. The claim as stated, that every operation on a dead set fails with
  \<open>EIDRM\<close>, fails at the counterexample further down: only \<open>ExecuteOps\<close> tests
  \<open>dead\<close>.
\<close>

theorem destroy_fan_out:
  "(dead s \<longrightarrow> ExecuteOps E ctx s cs ops creds pid = Returns ((None, 0, Some EIDRM), s, cs)) \<and>
   (\<forall>s' cs'. destroy s cs = Returns (s', cs') \<longrightarrow>
      dead s' \<and> length cs' = length cs \<and>
      (\<forall>c. c < length cs \<longrightarrow> cs' ! c = cs ! c + count_list (map w_ch (queued s)) c)) \<and>
   (queues_idle s cs \<longrightarrow>
      (\<exists>s' cs'. destroy s cs = Returns (s', cs') \<and> dead s' \<and> length cs' = length cs \<and>
         (\<forall>c. c < length cs \<longrightarrow>
            cs' ! c = (if c \<in> w_ch ` set (queued s) then 1 else cs ! c)))) \<and>
   (\<forall>r r' so cs'. RemoveID r cs ident creds = Returns (None, r', so, cs') \<longrightarrow>
      (\<exists>st s'. FindByID r ident = Some st \<and> so = Some s' \<and>
         destroy st cs = Returns (s', cs') \<and> dead s'))"
proof (intro conjI)
  show "dead s \<longrightarrow> ExecuteOps E ctx s cs ops creds pid = Returns ((None, 0, Some EIDRM), s, cs)"
    by (simp add: ExecuteOps_dead)
  show "\<forall>s' cs'. destroy s cs = Returns (s', cs') \<longrightarrow>
      dead s' \<and> length cs' = length cs \<and>
      (\<forall>c. c < length cs \<longrightarrow> cs' ! c = cs ! c + count_list (map w_ch (queued s)) c)"
    using destroy_Returns by blast
  show "queues_idle s cs \<longrightarrow>
      (\<exists>s' cs'. destroy s cs = Returns (s', cs') \<and> dead s' \<and> length cs' = length cs \<and>
         (\<forall>c. c < length cs \<longrightarrow>
            cs' ! c = (if c \<in> w_ch ` set (queued s) then 1 else cs ! c)))"
  proof
    assume idle: "queues_idle s cs"
    then obtain s' cs' where d: "destroy s cs = Returns (s', cs')"
      using destroy_idle by blast
    note r = destroy_Returns [OF d]
    from idle have dist: "distinct (map w_ch (queued s))"
      and empty: "\<And>c. c \<in> w_ch ` set (queued s) \<Longrightarrow> cs ! c = 0"
      by (auto simp: queues_idle_def list_all_iff)
    have "cs' ! c = (if c \<in> w_ch ` set (queued s) then 1 else cs ! c)" if "c < length cs" for c
      using r that empty [of c] by (simp add: count_list_distinct [OF dist])
    with d r show "\<exists>s' cs'. destroy s cs = Returns (s', cs') \<and> dead s' \<and> length cs' = length cs \<and>
         (\<forall>c. c < length cs \<longrightarrow>
            cs' ! c = (if c \<in> w_ch ` set (queued s) then 1 else cs ! c))"
      by blast
  qed
  show "\<forall>r r' so cs'. RemoveID r cs ident creds = Returns (None, r', so, cs') \<longrightarrow>
      (\<exists>st s'. FindByID r ident = Some st \<and> so = Some s' \<and>
         destroy st cs = Returns (s', cs') \<and> dead s')"
    using RemoveID_destroy destroy_Returns by blast
qed

lemmas destroy_defs = destroy_def send_def queued_def queues_idle_def parked_def

theorem destroy_fan_out_witness:
  "dead (parked\<lparr>dead := True\<rparr>) \<and>
   ExecuteOps linux_extern ctx_alice (parked\<lparr>dead := True\<rparr>) [1, 1] [sembuf 0 (- 1) 0] alice 42
     = Returns ((None, 0, Some EIDRM), parked\<lparr>dead := True\<rparr>, [1, 1]) \<and>
   queues_idle parked [0, 0] \<and>
   destroy parked [0, 0] = Returns (parked\<lparr>dead := True\<rparr>, [1, 1]) \<and>
   RemoveID \<lparr>userNS = 0, semaphores = [(1, parked)], lastIDUsed = 1, indexes = [(0, 1)]\<rparr>
       [0, 0] 1 alice
     = Returns (None, \<lparr>userNS = 0, semaphores = [], lastIDUsed = 1, indexes = []\<rparr>,
         Some (parked\<lparr>dead := True\<rparr>), [1, 1])"
proof -
  have d: "dead (parked\<lparr>dead := True\<rparr>)" by simp
  have i: "queues_idle parked [0, 0]"
    by (simp add: destroy_defs ex_defs)
  have x: "destroy parked [0, 0] = Returns (parked\<lparr>dead := True\<rparr>, [1, 1])"
    by (simp add: destroy_defs ex_defs)
  have r: "RemoveID \<lparr>userNS = 0, semaphores = [(1, parked)], lastIDUsed = 1, indexes = [(0, 1)]\<rparr>
       [0, 0] 1 alice
     = Returns (None, \<lparr>userNS = 0, semaphores = [], lastIDUsed = 1, indexes = []\<rparr>,
         Some (parked\<lparr>dead := True\<rparr>), [1, 1])"
    by (simp add: RemoveID_def findIndexByID_def checkCredentials_def destroy_defs ex_defs)
  from destroy_fan_out [where s = "parked\<lparr>dead := True\<rparr>" and E = linux_extern and ctx = ctx_alice
      and cs = "[1, 1]" and ops = "[sembuf 0 (- 1) 0]" and creds = alice and pid = 42] d
  have e: "ExecuteOps linux_extern ctx_alice (parked\<lparr>dead := True\<rparr>) [1, 1] [sembuf 0 (- 1) 0] alice 42
     = Returns ((None, 0, Some EIDRM), parked\<lparr>dead := True\<rparr>, [1, 1])"
    by blast
  from destroy_fan_out [where s = parked and cs = "[0, 0]" and ident = 1 and creds = alice] i x r
  have "dead (parked\<lparr>dead := True\<rparr>)"
    by blast
  with e i x r show ?thesis by blast
qed

theorem dead_set_operations_counterexample:
  "destroy parked [0, 0] = Returns (parked\<lparr>dead := True\<rparr>, [1, 1]) \<and>
   dead (parked\<lparr>dead := True\<rparr>) \<and>
   GetVal (parked\<lparr>dead := True\<rparr>) 0 alice = (0, None) \<and>
   GetPID (parked\<lparr>dead := True\<rparr>) 0 alice = (0, None) \<and>
   dead ((set_of [sem_of 0 [] 0])\<lparr>dead := True\<rparr>) \<and>
   SetVal linux_extern ctx_alice ((set_of [sem_of 0 [] 0])\<lparr>dead := True\<rparr>) [] 0 5 alice 42
     = Returns (None, (set_of [sem_of 5 [] 42])\<lparr>dead := True\<rparr>, [])"
  by (simp add: destroy_defs GetVal_def GetPID_def SetVal_def run_defs ex_defs)

subsection \<open>Wake handles\<close>

text \<open>
  What C7 says of wake handles holds for as long as \<open>destroy\<close> has not run. When the
  channels of the queued waiters are pairwise different, made and empty, every operation
  other than \<open>destroy\<close> returns, so no send of \<open>wakeWaiters\<close> blocks, and leaves the
  queues in that state. The lemmas of this section show it operation by operation; the
  evaluation at its end shows how \<open>destroy\<close> breaks it.
\<close>

lemma wakeWaiters_loop_idle:
  assumes "distinct (map w_ch ws)"
    and "\<forall>w \<in> set ws. w_ch w < length cs \<and> cs ! w_ch w = 0"
  shows "\<exists>cs'. wakeWaiters_loop v ws cs = Returns (filter (still_blocked v) ws, cs') \<and>
           length cs' = length cs \<and>
           (\<forall>c. c < length cs \<longrightarrow>
              cs' ! c = (if c \<in> w_ch ` {w \<in> set ws. \<not> still_blocked v w} then 1 else cs ! c))"
  using assms
proof (induction ws arbitrary: cs)
  case Nil
  then show ?case by simp
next
  case (Cons w ws)
  show ?case
  proof (cases "still_blocked v w")
    case True
    from Cons.prems have "distinct (map w_ch ws)"
      "\<forall>w \<in> set ws. w_ch w < length cs \<and> cs ! w_ch w = 0"
      by simp_all
    from Cons.IH [OF this] obtain cs' where
      r: "wakeWaiters_loop v ws cs = Returns (filter (still_blocked v) ws, cs')"
      and l: "length cs' = length cs"
      and c: "\<forall>c. c < length cs \<longrightarrow>
              cs' ! c = (if c \<in> w_ch ` {w \<in> set ws. \<not> still_blocked v w} then 1 else cs ! c)"
      by blast
    have "w_ch ` {x \<in> set (w # ws). \<not> still_blocked v x} = w_ch ` {x \<in> set ws. \<not> still_blocked v x}"
      using True by auto
    with r l c True show ?thesis
      by (simp add: still_blocked_def [symmetric])
  next
    case False
    let ?cs1 = "cs[w_ch w := Suc 0]"
    from Cons.prems have s: "send cs (w_ch w) = Returns ?cs1"
      by (simp add: send_Returns)
    from Cons.prems have "distinct (map w_ch ws)"
      "\<forall>x \<in> set ws. w_ch x < length ?cs1 \<and> ?cs1 ! w_ch x = 0"
      by (auto simp: nth_list_update)
    from Cons.IH [OF this] obtain cs' where
      r: "wakeWaiters_loop v ws ?cs1 = Returns (filter (still_blocked v) ws, cs')"
      and l: "length cs' = length ?cs1"
      and c: "\<forall>c. c < length ?cs1 \<longrightarrow>
              cs' ! c = (if c \<in> w_ch ` {w \<in> set ws. \<not> still_blocked v w} then 1 else ?cs1 ! c)"
      by blast
    have img: "w_ch ` {x \<in> set (w # ws). \<not> still_blocked v x}
        = insert (w_ch w) (w_ch ` {x \<in> set ws. \<not> still_blocked v x})"
      using False by auto
    have "cs' ! c = (if c \<in> w_ch ` {x \<in> set (w # ws). \<not> still_blocked v x} then 1 else cs ! c)"
      if "c < length cs" for c
    proof (cases "c = w_ch w")
      case True
      with c that show ?thesis
        unfolding img by simp
    next
      case False
      with c that show ?thesis
        unfolding img by simp
    qed
    with r l s False show ?thesis
      by (simp add: still_blocked_def [symmetric])
  qed
qed

lemma idle_after_wake:
  assumes d: "distinct (map w_ch (A @ B @ C))"
    and e: "\<forall>w \<in> set (A @ B @ C). w_ch w < length cs \<and> cs ! w_ch w = 0"
    and l: "length cs' = length cs"
    and c: "\<forall>c. c < length cs \<longrightarrow>
              cs' ! c = (if c \<in> w_ch ` {w \<in> set B. \<not> P w} then 1 else cs ! c)"
  shows "distinct (map w_ch (A @ filter P B @ C)) \<and>
         (\<forall>w \<in> set (A @ filter P B @ C). w_ch w < length cs' \<and> cs' ! w_ch w = 0)"
proof (intro conjI ballI)
  from d show "distinct (map w_ch (A @ filter P B @ C))"
    by (auto simp: distinct_map_filter)
next
  fix w
  assume w: "w \<in> set (A @ filter P B @ C)"
  then have w': "w \<in> set (A @ B @ C)" by auto
  with e have a: "w_ch w < length cs" and z: "cs ! w_ch w = 0" by blast+
  from a l show "w_ch w < length cs'" by simp
  have "w_ch w \<notin> w_ch ` {x \<in> set B. \<not> P x}"
  proof
    assume "w_ch w \<in> w_ch ` {x \<in> set B. \<not> P x}"
    then obtain x where x: "x \<in> set B" "\<not> P x" "w_ch x = w_ch w" by auto
    from d have inj: "inj_on w_ch (set (A @ B @ C))"
      by (simp only: distinct_map)
    from x(1) have "x \<in> set (A @ B @ C)" by simp
    with inj w' x(3) have "x = w" by (auto dest: inj_onD)
    with x(2) have nP: "\<not> P w" by simp
    from d have "set A \<inter> set B = {}" "set B \<inter> set C = {}"
      by (auto simp: distinct_map dest: inj_onD)
    with x(1) \<open>x = w\<close> w nP show False by auto
  qed
  with c a z show "cs' ! w_ch w = 0" by simp
qed

lemma queued_update:
  assumes "i < length ss"
  shows "queued (s\<lparr>sems := ss\<rparr>)
           = concat (map sem_waiters (take i ss)) @ sem_waiters (ss ! i) @
             concat (map sem_waiters (drop (Suc i) ss))"
    and "queued (s\<lparr>sems := ss[i := sm]\<rparr>)
           = concat (map sem_waiters (take i ss)) @ sem_waiters sm @
             concat (map sem_waiters (drop (Suc i) ss))"
proof -
  from assms have "ss = take i ss @ ss ! i # drop (Suc i) ss"
    by (simp add: id_take_nth_drop [symmetric])
  then have "concat (map sem_waiters ss)
      = concat (map sem_waiters (take i ss @ ss ! i # drop (Suc i) ss))"
    by simp
  then show "queued (s\<lparr>sems := ss\<rparr>)
           = concat (map sem_waiters (take i ss)) @ sem_waiters (ss ! i) @
             concat (map sem_waiters (drop (Suc i) ss))"
    by (simp add: queued_def)
  from assms show "queued (s\<lparr>sems := ss[i := sm]\<rparr>)
           = concat (map sem_waiters (take i ss)) @ sem_waiters sm @
             concat (map sem_waiters (drop (Suc i) ss))"
    by (simp add: queued_def upd_conv_take_nth_drop)
qed

text \<open>
  One call of \<open>wakeWaiters\<close> on the semaphore \<open>i\<close> of a set whose queues are idle: it
  returns, and the queues are idle again.
\<close>

lemma wakeWaiters_step:
  assumes idle: "queues_idle (s\<lparr>sems := ss\<rparr>) cs" and i: "i < length ss"
    and same: "sem_waiters sm0 = sem_waiters (ss ! i)"
  shows "\<exists>sm cs'. wakeWaiters sm0 cs = Returns (sm, cs') \<and>
           (\<forall>p. queues_idle (s\<lparr>sems := ss[i := sm\<lparr>sem_pid := p\<rparr>]\<rparr>) cs') \<and>
           queues_idle (s\<lparr>sems := ss[i := sm]\<rparr>) cs'"
proof -
  let ?A = "concat (map sem_waiters (take i ss))"
  let ?B = "sem_waiters (ss ! i)"
  let ?C = "concat (map sem_waiters (drop (Suc i) ss))"
  let ?v = "sem_value sm0"
  from idle have d: "distinct (map w_ch (?A @ ?B @ ?C))"
    and e: "\<forall>w \<in> set (?A @ ?B @ ?C). w_ch w < length cs \<and> cs ! w_ch w = 0"
    by (simp_all add: queues_idle_def queued_update(1) [OF i] list_all_iff)
  from d have dB: "distinct (map w_ch ?B)" by simp
  from e have eB: "\<forall>w \<in> set ?B. w_ch w < length cs \<and> cs ! w_ch w = 0" by simp
  from wakeWaiters_loop_idle [OF dB eB, of ?v] obtain cs' where
    r: "wakeWaiters_loop ?v ?B cs = Returns (filter (still_blocked ?v) ?B, cs')"
    and l: "length cs' = length cs"
    and c: "\<forall>c. c < length cs \<longrightarrow>
              cs' ! c = (if c \<in> w_ch ` {w \<in> set ?B. \<not> still_blocked ?v w} then 1 else cs ! c)"
    by blast
  let ?sm = "sm0\<lparr>sem_waiters := filter (still_blocked ?v) ?B\<rparr>"
  from r same have w: "wakeWaiters sm0 cs = Returns (?sm, cs')"
    by (simp add: wakeWaiters_def)
  note a = idle_after_wake [OF d e l c]
  have "queues_idle (s\<lparr>sems := ss[i := sm']\<rparr>) cs'"
    if "sem_waiters sm' = filter (still_blocked ?v) ?B" for sm'
    using a that by (simp add: queues_idle_def queued_update(2) [OF i] list_all_iff)
  then have "(\<forall>p. queues_idle (s\<lparr>sems := ss[i := ?sm\<lparr>sem_pid := p\<rparr>]\<rparr>) cs') \<and>
           queues_idle (s\<lparr>sems := ss[i := ?sm]\<rparr>) cs'"
    by simp
  with w show ?thesis by blast
qed

lemma queues_idle_sems:
  "sems s' = sems s \<Longrightarrow> queues_idle s' cs = queues_idle s cs"
  by (simp add: queues_idle_def queued_def)

lemma executeOps_commit_idle:
  assumes "queues_idle (s\<lparr>sems := ss\<rparr>) cs" and "i + length vs \<le> length ss"
  shows "\<exists>ss' cs'. executeOps_commit pid i vs ss cs = Returns (ss', cs') \<and>
           queues_idle (s\<lparr>sems := ss'\<rparr>) cs'"
  using assms
proof (induction vs arbitrary: i ss cs)
  case Nil
  then show ?case by simp
next
  case (Cons v vs)
  from Cons.prems(2) have i: "i < length ss" by simp
  have "sem_waiters ((ss ! i)\<lparr>sem_value := v\<rparr>) = sem_waiters (ss ! i)" by simp
  from wakeWaiters_step [OF Cons.prems(1) i this] obtain sm cs1 where
    w: "wakeWaiters ((ss ! i)\<lparr>sem_value := v\<rparr>) cs = Returns (sm, cs1)"
    and q: "queues_idle (s\<lparr>sems := ss[i := sm\<lparr>sem_pid := pid\<rparr>]\<rparr>) cs1"
    by blast
  from Cons.prems(2) have "Suc i + length vs \<le> length (ss[i := sm\<lparr>sem_pid := pid\<rparr>])"
    by simp
  from Cons.IH [OF q this] w i show ?case by simp
qed

lemma SetValAll_loop_idle:
  assumes "queues_idle (s\<lparr>sems := ss\<rparr>) cs" and "i + length vals \<le> length ss"
  shows "\<exists>ss' cs'. SetValAll_loop pid i vals ss cs = Returns (ss', cs') \<and>
           queues_idle (s\<lparr>sems := ss'\<rparr>) cs'"
  using assms
proof (induction vals arbitrary: i ss cs)
  case Nil
  then show ?case by simp
next
  case (Cons val vals)
  from Cons.prems(2) have i: "i < length ss" by simp
  have "sem_waiters ((ss ! i)\<lparr>sem_value := val, sem_pid := pid\<rparr>) = sem_waiters (ss ! i)" by simp
  from wakeWaiters_step [OF Cons.prems(1) i this] obtain sm cs1 where
    w: "wakeWaiters ((ss ! i)\<lparr>sem_value := val, sem_pid := pid\<rparr>) cs = Returns (sm, cs1)"
    and q: "queues_idle (s\<lparr>sems := ss[i := sm]\<rparr>) cs1"
    by blast
  from Cons.prems(2) have "Suc i + length vals \<le> length (ss[i := sm])"
    by simp
  from Cons.IH [OF q this] w i show ?case by simp
qed

lemma findSem_ucast:
  "findSem s (ucast (n :: uint16)) = (if unat n < length (sems s) then Some (unat n) else None)"
proof -
  have "uint n < 65536" "0 \<le> uint n"
    using uint_bounded [of n] by simp_all
  then have "- 2147483648 \<le> uint n" "uint n < 2147483648"
    by linarith+
  then have "signed_take_bit 31 (uint n) = uint n"
    by (simp add: signed_take_bit_int_eq_self_iff)
  then have "sint (ucast n :: int32) = uint n"
    by (simp add: signed_ucast_eq)
  moreover have "uint n = int (unat n)"
    by simp
  ultimately have s: "sint (ucast n :: int32) = int (unat n)"
    by (simp only:)
  show ?thesis
  proof (cases "unat n < length (sems s)")
    case True
    then have "\<not> (int (unat n) < 0 \<or> int (length (sems s)) \<le> int (unat n))"
      by arith
    with True show ?thesis
      unfolding findSem_def Size_def s by (simp only: if_False if_True nat_int)
  next
    case False
    then have "int (unat n) < 0 \<or> int (length (sems s)) \<le> int (unat n)"
      by arith
    with False show ?thesis
      unfolding findSem_def Size_def s by (simp only: if_False if_True)
  qed
qed

lemma ExecuteOps_validate_in_range:
  "ExecuteOps_validate s readOnly ops = Some ro \<Longrightarrow>
     \<forall>op \<in> set ops. unat (SemNum op) < length (sems s)"
  by (induction ops arbitrary: readOnly) (auto simp: findSem_ucast split: if_splits)

lemma executeOps_loop_no_panic:
  "\<forall>op \<in> set ops. unat (SemNum op) < length (sems s) \<Longrightarrow>
     \<exists>x. executeOps_loop E s cs tmpVals ops = Returns x"
  by (induction ops arbitrary: tmpVals) auto

lemma idle_after_push:
  assumes d: "distinct (map w_ch (A @ B @ C))"
    and e: "\<forall>w \<in> set (A @ B @ C). w_ch w < length cs \<and> cs ! w_ch w = 0"
  shows "distinct (map w_ch (A @ (B @ [\<lparr>w_value = v, w_ch = length cs\<rparr>]) @ C)) \<and>
         (\<forall>w \<in> set (A @ (B @ [\<lparr>w_value = v, w_ch = length cs\<rparr>]) @ C).
            w_ch w < length (cs @ [0]) \<and> (cs @ [0]) ! w_ch w = 0)"
proof (rule conjI)
  from e have "length cs \<notin> w_ch ` set (A @ B @ C)"
    by auto
  with d show "distinct (map w_ch (A @ (B @ [\<lparr>w_value = v, w_ch = length cs\<rparr>]) @ C))"
    by auto
next
  show "\<forall>w \<in> set (A @ (B @ [\<lparr>w_value = v, w_ch = length cs\<rparr>]) @ C).
            w_ch w < length (cs @ [0]) \<and> (cs @ [0]) ! w_ch w = 0"
  proof (rule ballI)
    fix w
    assume "w \<in> set (A @ (B @ [\<lparr>w_value = v, w_ch = length cs\<rparr>]) @ C)"
    then consider "w \<in> set (A @ B @ C)" | "w = \<lparr>w_value = v, w_ch = length cs\<rparr>"
      by auto
    then show "w_ch w < length (cs @ [0]) \<and> (cs @ [0]) ! w_ch w = 0"
    proof cases
      case 1
      with e have "w_ch w < length cs" "cs ! w_ch w = 0" by blast+
      then show ?thesis by (simp add: nth_append)
    next
      case 2
      then show ?thesis by simp
    qed
  qed
qed

lemma idle_after_remove:
  assumes d: "distinct (map w_ch (A @ B @ C))"
    and e: "\<forall>w \<in> set (A @ B @ C). w_ch w < length cs \<and> cs ! w_ch w = 0"
    and sub: "set B' \<subseteq> set B" and dB': "distinct (map w_ch B')"
  shows "distinct (map w_ch (A @ B' @ C)) \<and>
         (\<forall>w \<in> set (A @ B' @ C). w_ch w < length cs \<and> cs ! w_ch w = 0)"
proof (rule conjI)
  from sub have i: "w_ch ` set B' \<subseteq> w_ch ` set B" by (rule image_mono)
  from d have "distinct (map w_ch A)" "distinct (map w_ch C)"
    "w_ch ` set A \<inter> w_ch ` set B = {}" "w_ch ` set A \<inter> w_ch ` set C = {}"
    "w_ch ` set B \<inter> w_ch ` set C = {}"
    by auto
  with i have "distinct (map w_ch A)" "distinct (map w_ch C)"
    "w_ch ` set A \<inter> w_ch ` set B' = {}" "w_ch ` set A \<inter> w_ch ` set C = {}"
    "w_ch ` set B' \<inter> w_ch ` set C = {}"
    by blast+
  with dB' show "distinct (map w_ch (A @ B' @ C))"
    by auto
next
  from e sub show "\<forall>w \<in> set (A @ B' @ C). w_ch w < length cs \<and> cs ! w_ch w = 0"
    by auto
qed

lemma executeOps_block_idle:
  assumes idle: "queues_idle s cs" and n: "unat (SemNum op) < length (sems s)"
    and b: "executeOps_block s cs op = (ret, s', cs')"
  shows "queues_idle s' cs'"
proof -
  let ?n = "unat (SemNum op)"
  let ?A = "concat (map sem_waiters (take ?n (sems s)))"
  let ?B = "sem_waiters (sems s ! ?n)"
  let ?C = "concat (map sem_waiters (drop (Suc ?n) (sems s)))"
  let ?w = "\<lparr>w_value = SemOp op, w_ch = length cs\<rparr>"
  have s: "s\<lparr>sems := sems s\<rparr> = s" by simp
  from queued_update(1) [OF n, where s = s] have q: "queued s = ?A @ ?B @ ?C"
    by (simp only: s)
  from b have s': "s' = s\<lparr>sems := (sems s)[?n := (sems s ! ?n)\<lparr>sem_waiters := ?B @ [?w]\<rparr>]\<rparr>"
    and cs': "cs' = cs @ [0]"
    by (simp_all add: executeOps_block_def newWaiter_def make_chan_def)
  from queued_update(2) [OF n, where s = s and sm = "(sems s ! ?n)\<lparr>sem_waiters := ?B @ [?w]\<rparr>"] s'
  have q': "queued s' = ?A @ (?B @ [?w]) @ ?C"
    by simp
  from idle q have d: "distinct (map w_ch (?A @ ?B @ ?C))"
    and e: "\<forall>w \<in> set (?A @ ?B @ ?C). w_ch w < length cs \<and> cs ! w_ch w = 0"
    by (simp_all add: queues_idle_def list_all_iff)
  note idle_after_push [OF d e, of "SemOp op"]
  then have "distinct (map w_ch (?A @ (?B @ [?w]) @ ?C))"
    and "\<forall>w \<in> set (?A @ (?B @ [?w]) @ ?C).
      w_ch w < length (cs @ [0]) \<and> (cs @ [0]) ! w_ch w = 0"
    by blast+
  then show ?thesis
    by (simp only: queues_idle_def q' cs' list_all_iff simp_thms)
qed

text \<open>
  On a set whose queues are idle every operation returns, so that no send of
  \<open>wakeWaiters\<close> blocks, and leaves the queues idle.
\<close>

lemma ExecuteOps_idle:
  assumes idle: "queues_idle s cs"
  shows "\<exists>ret s' cs'. ExecuteOps E ctx s cs ops creds pid = Returns (ret, s', cs') \<and>
           queues_idle s' cs'"
proof (cases "dead s \<or> ExecuteOps_validate s True ops = None \<or>
    \<not> checkPerms s creds \<lparr>Read = the (ExecuteOps_validate s True ops),
         Write = \<not> the (ExecuteOps_validate s True ops), Execute = False\<rparr>")
  case True
  with idle show ?thesis
    by (auto simp: ExecuteOps_def split: option.splits)
next
  case False
  then obtain ro where v: "ExecuteOps_validate s True ops = Some ro"
    and live: "\<not> dead s"
    and p: "checkPerms s creds \<lparr>Read = ro, Write = \<not> ro, Execute = False\<rparr>"
    by auto
  note rng = ExecuteOps_validate_in_range [OF v]
  from executeOps_loop_no_panic [OF rng] obtain x where
    l: "executeOps_loop E s cs (map sem_value (sems s)) ops = Returns x"
    by blast
  have "\<exists>ret s' cs'. executeOps E ctx s cs ops pid = Returns (ret, s', cs') \<and> queues_idle s' cs'"
  proof (cases x)
    case (Inl r)
    obtain ret s' cs' where r: "r = (ret, s', cs')" by (cases r) auto
    from executeOps_loop_Inl [of E s cs "map sem_value (sems s)" ops r] l Inl
    consider "s' = s \<and> cs' = cs"
      | op where "unat (SemNum op) < length (sems s)" "executeOps_block s cs op = (ret, s', cs')"
      using r by auto
    then have "queues_idle s' cs'"
    proof cases
      case 1
      with idle show ?thesis by simp
    next
      case 2
      from executeOps_block_idle [OF idle 2] show ?thesis .
    qed
    with l Inl r show ?thesis by (cases ret) (auto simp: executeOps_def)
  next
    case (Inr tv)
    from executeOps_loop_Inr_length [of E s cs "map sem_value (sems s)" ops tv] l Inr
    have len: "0 + length tv \<le> length (sems s)" by simp
    from idle have "queues_idle (s\<lparr>sems := sems s\<rparr>) cs" by simp
    from executeOps_commit_idle [OF this len, of pid] obtain ss cs' where
      c: "executeOps_commit pid 0 tv (sems s) cs = Returns (ss, cs')"
      and q: "queues_idle (s\<lparr>sems := ss\<rparr>) cs'"
      by blast
    from q have "queues_idle (s\<lparr>sems := ss, opTime := NowFromContext ctx\<rparr>) cs'"
      by (simp add: queues_idle_def queued_def)
    with l Inr c show ?thesis by (simp add: executeOps_def)
  qed
  then obtain ret s' cs' where
    e: "executeOps E ctx s cs ops pid = Returns (ret, s', cs')" and q: "queues_idle s' cs'"
    by blast
  obtain ch num err where "ret = (ch, num, err)" by (cases ret) auto
  with e q v live p show ?thesis
    by (cases err) (auto simp: ExecuteOps_def)
qed

lemma SetVal_idle:
  assumes idle: "queues_idle s cs"
  shows "\<exists>err s' cs'. SetVal E ctx s cs num val creds pid = Returns (err, s', cs') \<and>
           queues_idle s' cs'"
proof (cases "findSem s num")
  case None
  with idle show ?thesis by (auto simp: SetVal_def)
next
  case (Some i)
  then have i: "i < length (sems s)"
    by (auto simp: findSem_def Size_def split: if_splits)
  from idle have q: "queues_idle (s\<lparr>sems := sems s\<rparr>) cs" by simp
  have "sem_waiters ((sems s ! i)\<lparr>sem_value := val, sem_pid := pid\<rparr>) = sem_waiters (sems s ! i)"
    by simp
  from wakeWaiters_step [OF q i this] obtain sm cs' where
    w: "wakeWaiters ((sems s ! i)\<lparr>sem_value := val, sem_pid := pid\<rparr>) cs = Returns (sm, cs')"
    and q': "queues_idle (s\<lparr>sems := (sems s)[i := sm]\<rparr>) cs'"
    by blast
  from q' have "queues_idle (s\<lparr>sems := (sems s)[i := sm], changeTime := NowFromContext ctx\<rparr>) cs'"
    by (simp add: queues_idle_def queued_def)
  with idle Some w show ?thesis
    by (auto simp: SetVal_def)
qed

lemma SetValAll_idle:
  assumes idle: "queues_idle s cs" and len: "length vals = Size s"
  shows "\<exists>err s' cs'. SetValAll E ctx s cs vals creds pid = Returns (err, s', cs') \<and>
           queues_idle s' cs'"
proof -
  from idle have q: "queues_idle (s\<lparr>sems := sems s\<rparr>) cs" by simp
  from len have "0 + length vals \<le> length (sems s)" by (simp add: Size_def)
  from SetValAll_loop_idle [OF q this, of pid] obtain ss cs' where
    l: "SetValAll_loop pid 0 vals (sems s) cs = Returns (ss, cs')"
    and q': "queues_idle (s\<lparr>sems := ss\<rparr>) cs'"
    by blast
  from q' have "queues_idle (s\<lparr>sems := ss, changeTime := NowFromContext ctx\<rparr>) cs'"
    by (simp add: queues_idle_def queued_def)
  with idle len l show ?thesis
    by (auto simp: SetValAll_def)
qed

lemma AbortWait_idle:
  assumes idle: "queues_idle s cs" and ret: "AbortWait s num ch = Returns s'"
  shows "queues_idle s' cs"
proof -
  let ?n = "nat (sint num)"
  let ?A = "concat (map sem_waiters (take ?n (sems s)))"
  let ?B = "sem_waiters (sems s ! ?n)"
  let ?C = "concat (map sem_waiters (drop (Suc ?n) (sems s)))"
  from ret have n: "?n < length (sems s)"
    and s': "s' = s\<lparr>sems := (sems s)[?n := (sems s ! ?n)\<lparr>sem_waiters := AbortWait_loop ch ?B\<rparr>]\<rparr>"
    by (auto simp: AbortWait_def split: if_splits)
  have s: "s\<lparr>sems := sems s\<rparr> = s" by simp
  from queued_update(1) [OF n, where s = s] have q: "queued s = ?A @ ?B @ ?C"
    by (simp only: s)
  from queued_update(2) [OF n, where s = s and sm = "(sems s ! ?n)\<lparr>sem_waiters := AbortWait_loop ch ?B\<rparr>"] s'
  have q': "queued s' = ?A @ AbortWait_loop ch ?B @ ?C"
    by simp
  have sub: "set (AbortWait_loop ch ws) \<subseteq> set ws" for ws
    by (induction ws) auto
  have dist: "distinct (map w_ch ws) \<Longrightarrow> distinct (map w_ch (AbortWait_loop ch ws))" for ws
  proof (induction ws)
    case Nil
    then show ?case by simp
  next
    case (Cons w ws)
    with sub [of ws] show ?case by auto
  qed
  from idle q have d: "distinct (map w_ch (?A @ ?B @ ?C))"
    and e: "\<forall>w \<in> set (?A @ ?B @ ?C). w_ch w < length cs \<and> cs ! w_ch w = 0"
    by (simp_all add: queues_idle_def list_all_iff)
  from idle_after_remove [OF d e sub [of ?B] dist [of ?B]] d
  have "distinct (map w_ch (?A @ AbortWait_loop ch ?B @ ?C))"
    and "\<forall>w \<in> set (?A @ AbortWait_loop ch ?B @ ?C). w_ch w < length cs \<and> cs ! w_ch w = 0"
    by simp_all
  then show ?thesis
    by (simp only: queues_idle_def q' list_all_iff simp_thms)
qed

lemma recv_idle:
  "queues_idle s cs \<Longrightarrow> queues_idle s (recv cs c)"
  by (auto simp: queues_idle_def recv_def list_all_iff nth_list_update)

lemma newSet_literal_idle:
  "queues_idle (newSet_literal ctx r k own prm nsems) cs"
  by (simp add: queues_idle_def queued_def newSet_literal_def)

text \<open>
  C7 fails in the code, through \<open>destroy\<close>. A caller parks on a fresh semaphore: its
  waiter is queued with the empty channel 0. \<open>destroy\<close> sends to that channel and resets
  the queue of the loop variable, a copy, so the waiter stays in the queue of
  \<open>s.sems[0]\<close> with its buffer full. A \<open>SetVal\<close> by a caller that still holds the set then
  runs \<open>wakeWaiters\<close> over that queue, and its send finds no free slot: the waker blocks.
\<close>

theorem destroy_leaves_signalled_waiters_queued:
  "ExecuteOps linux_extern ctx_alice (set_of [sem_of 0 [] 0]) [] [sembuf 0 (- 1) 0] alice 42
     = Returns ((Some 0, 0, None), set_of [sem_of 0 [\<lparr>w_value = - 1, w_ch = 0\<rparr>] 0], [0]) \<and>
   queues_idle (set_of [sem_of 0 [\<lparr>w_value = - 1, w_ch = 0\<rparr>] 0]) [0] \<and>
   destroy (set_of [sem_of 0 [\<lparr>w_value = - 1, w_ch = 0\<rparr>] 0]) [0]
     = Returns ((set_of [sem_of 0 [\<lparr>w_value = - 1, w_ch = 0\<rparr>] 0])\<lparr>dead := True\<rparr>, [1]) \<and>
   queued ((set_of [sem_of 0 [\<lparr>w_value = - 1, w_ch = 0\<rparr>] 0])\<lparr>dead := True\<rparr>)
     = [\<lparr>w_value = - 1, w_ch = 0\<rparr>] \<and>
   \<not> queues_idle ((set_of [sem_of 0 [\<lparr>w_value = - 1, w_ch = 0\<rparr>] 0])\<lparr>dead := True\<rparr>) [1] \<and>
   SetVal linux_extern ctx_alice
       ((set_of [sem_of 0 [\<lparr>w_value = - 1, w_ch = 0\<rparr>] 0])\<lparr>dead := True\<rparr>) [1] 0 1 alice 43
     = Blocks"
  by (simp add: destroy_defs SetVal_def run_defs ex_defs)

subsection \<open>Lookup by key\<close>

lemma find_Some_member:
  "find P xs = Some x \<Longrightarrow> x \<in> set xs \<and> P x"
  by (induction xs) (auto split: if_splits)

lemma findByKey_Some:
  assumes "findByKey r k = Some st"
  shows "st \<in> snd ` set (semaphores r) \<and> key st = k"
proof -
  from assms obtain p where p: "find (\<lambda>(ident, v). key v = k) (semaphores r) = Some p" "st = snd p"
    by (auto simp: findByKey_def)
  from find_Some_member [OF p(1)] p(2) show ?thesis
    by (auto simp: case_prod_beta)
qed

lemma findByKey_None:
  "findByKey r k = None \<longleftrightarrow> \<not> (\<exists>st. st \<in> snd ` set (semaphores r) \<and> key st = k)"
  by (force simp: findByKey_def find_None_iff)

text \<open>
  C6, as amended: \<open>FindOrCreate\<close> first tests \<open>nsems\<close>: outside \<open>[0, semsMax]\<close> every
  call fails with \<open>EINVAL\<close>. For \<open>nsems\<close> within that range and \<open>private = false\<close>: when
  the lookup by key finds a set (a set of the registry with that key), the outcome is
  \<open>EACCES\<close> when the caller fails the permission check for the mask derived from
  \<open>mode\<close>, else \<open>EINVAL\<close> when \<open>nsems\<close> exceeds the size of the found set (as an
  \<open>int32\<close>), else \<open>EEXIST\<close> when \<open>create\<close> and \<open>exclusive\<close> are both set, else the found
  set with no error; and when no set of the registry has the key and \<open>create\<close> is false,
  the outcome is \<open>ENOENT\<close>. The registry is unchanged in all these cases. The claim as
  stated, without the range of \<open>nsems\<close>, fails at the counterexample further down.
\<close>

theorem FindOrCreate_order:
  "(sint nsems < 0 \<or> semsMax E < sint nsems \<longrightarrow>
      FindOrCreate E ctx r k nsems mode private create exclusive
        = Some (Returns ((None, Some EINVAL), r))) \<and>
   (0 \<le> sint nsems \<and> sint nsems \<le> semsMax E \<longrightarrow>
      (\<forall>st. findByKey r k = Some st \<longrightarrow>
         st \<in> snd ` set (semaphores r) \<and> key st = k \<and>
         FindOrCreate E ctx r k nsems mode False create exclusive
           = Some (Returns
               (if \<not> checkPerms st (CredentialsFromContext ctx) (PermsFromMode E mode)
                then (None, Some EACCES)
                else if sint (word_of_nat (Size st) :: int32) < sint nsems
                then (None, Some EINVAL)
                else if create \<and> exclusive then (None, Some EEXIST)
                else (Some st, None), r))) \<and>
      (\<not> (\<exists>st. st \<in> snd ` set (semaphores r) \<and> key st = k) \<longrightarrow>
         FindOrCreate E ctx r k nsems mode False False exclusive
           = Some (Returns ((None, Some ENOENT), r))))"
proof (intro conjI impI allI)
  assume "sint nsems < 0 \<or> semsMax E < sint nsems"
  then show "FindOrCreate E ctx r k nsems mode private create exclusive
        = Some (Returns ((None, Some EINVAL), r))"
    by (auto simp: FindOrCreate_def)
next
  fix st
  assume "0 \<le> sint nsems \<and> sint nsems \<le> semsMax E" and f: "findByKey r k = Some st"
  from findByKey_Some [OF f] show "st \<in> snd ` set (semaphores r)" "key st = k"
    by simp_all
next
  fix st
  assume "0 \<le> sint nsems \<and> sint nsems \<le> semsMax E" and f: "findByKey r k = Some st"
  then show "FindOrCreate E ctx r k nsems mode False create exclusive
           = Some (Returns
               (if \<not> checkPerms st (CredentialsFromContext ctx) (PermsFromMode E mode)
                then (None, Some EACCES)
                else if sint (word_of_nat (Size st) :: int32) < sint nsems
                then (None, Some EINVAL)
                else if create \<and> exclusive then (None, Some EEXIST)
                else (Some st, None), r))"
    by (auto simp: FindOrCreate_def)
next
  assume "0 \<le> sint nsems \<and> sint nsems \<le> semsMax E"
    and "\<not> (\<exists>st. st \<in> snd ` set (semaphores r) \<and> key st = k)"
  then have "findByKey r k = None" "\<not> (sint nsems < 0 \<or> semsMax E < sint nsems)"
    by (simp_all add: findByKey_None)
  then show "FindOrCreate E ctx r k nsems mode False False exclusive
           = Some (Returns ((None, Some ENOENT), r))"
    by (simp add: FindOrCreate_def)
qed

lemmas find_defs = FindOrCreate_def findByKey_def semsMax_def checkPerms_def checkCapability_def
  SupersetOf_def Size_def reg_parked_def parked_def

theorem FindOrCreate_order_witness:
  "0 \<le> sint (1 :: int32) \<and> sint (1 :: int32) \<le> semsMax linux_extern \<and>
   0 \<le> sint (2 :: int32) \<and> sint (2 :: int32) \<le> semsMax linux_extern \<and>
   findByKey reg_parked 7 = Some parked \<and>
   FindOrCreate linux_extern ctx_mallory reg_parked 7 1 0x180 False False False
     = Some (Returns ((None, Some EACCES), reg_parked)) \<and>
   FindOrCreate linux_extern ctx_alice reg_parked 7 2 0x180 False True True
     = Some (Returns ((None, Some EINVAL), reg_parked)) \<and>
   FindOrCreate linux_extern ctx_alice reg_parked 7 1 0x180 False True True
     = Some (Returns ((None, Some EEXIST), reg_parked)) \<and>
   FindOrCreate linux_extern ctx_alice reg_parked 7 1 0x180 False True False
     = Some (Returns ((Some parked, None), reg_parked)) \<and>
   findByKey reg_parked 8 = None \<and>
   FindOrCreate linux_extern ctx_alice reg_parked 8 1 0x180 False False False
     = Some (Returns ((None, Some ENOENT), reg_parked)) \<and>
   sint (- 1 :: int32) < 0 \<and>
   FindOrCreate linux_extern ctx_alice reg_parked 7 (- 1) 0x180 False True False
     = Some (Returns ((None, Some EINVAL), reg_parked))"
proof -
  have n1: "0 \<le> sint (1 :: int32) \<and> sint (1 :: int32) \<le> semsMax linux_extern"
    and n2: "0 \<le> sint (2 :: int32) \<and> sint (2 :: int32) \<le> semsMax linux_extern"
    and n3: "sint (- 1 :: int32) < 0"
    by (simp_all add: semsMax_def ex_defs)
  have f7: "findByKey reg_parked 7 = Some parked"
    and f8: "findByKey reg_parked 8 = None"
    by (simp_all add: find_defs ex_defs)
  have f8': "\<not> (\<exists>st. st \<in> snd ` set (semaphores reg_parked) \<and> key st = 8)"
    by (simp add: find_defs ex_defs)
  have pm: "\<not> checkPerms parked (CredentialsFromContext ctx_mallory) (PermsFromMode linux_extern 0x180)"
    and pa: "checkPerms parked (CredentialsFromContext ctx_alice) (PermsFromMode linux_extern 0x180)"
    by (simp_all add: find_defs ex_defs)
  have sz: "sint (word_of_nat (Size parked) :: int32) < sint (2 :: int32)"
    "\<not> sint (word_of_nat (Size parked) :: int32) < sint (1 :: int32)"
    by (simp_all add: find_defs ex_defs)
  from FindOrCreate_order [where E = linux_extern and ctx = ctx_mallory and r = reg_parked and k = 7
      and nsems = 1 and mode = "0x180" and create = False and exclusive = False] n1 f7 pm
  have a: "FindOrCreate linux_extern ctx_mallory reg_parked 7 1 0x180 False False False
     = Some (Returns ((None, Some EACCES), reg_parked))"
    by simp
  from FindOrCreate_order [where E = linux_extern and ctx = ctx_alice and r = reg_parked and k = 7
      and nsems = 2 and mode = "0x180" and create = True and exclusive = True] n2 f7 pa sz
  have b: "FindOrCreate linux_extern ctx_alice reg_parked 7 2 0x180 False True True
     = Some (Returns ((None, Some EINVAL), reg_parked))"
    by simp
  from FindOrCreate_order [where E = linux_extern and ctx = ctx_alice and r = reg_parked and k = 7
      and nsems = 1 and mode = "0x180" and create = True and exclusive = True] n1 f7 pa sz
  have c: "FindOrCreate linux_extern ctx_alice reg_parked 7 1 0x180 False True True
     = Some (Returns ((None, Some EEXIST), reg_parked))"
    by simp
  from FindOrCreate_order [where E = linux_extern and ctx = ctx_alice and r = reg_parked and k = 7
      and nsems = 1 and mode = "0x180" and create = True and exclusive = False] n1 f7 pa sz
  have d: "FindOrCreate linux_extern ctx_alice reg_parked 7 1 0x180 False True False
     = Some (Returns ((Some parked, None), reg_parked))"
    by simp
  from FindOrCreate_order [where E = linux_extern and ctx = ctx_alice and r = reg_parked and k = 8
      and nsems = 1 and mode = "0x180" and exclusive = False] n1 f8'
  have e: "FindOrCreate linux_extern ctx_alice reg_parked 8 1 0x180 False False False
     = Some (Returns ((None, Some ENOENT), reg_parked))"
    by blast
  from FindOrCreate_order [where E = linux_extern and ctx = ctx_alice and r = reg_parked and k = 7
      and nsems = "- 1" and mode = "0x180" and ?private = False and create = True and exclusive = False] n3
  have g: "FindOrCreate linux_extern ctx_alice reg_parked 7 (- 1) 0x180 False True False
     = Some (Returns ((None, Some EINVAL), reg_parked))"
    by blast
  from n1 n2 n3 f7 f8 a b c d e g show ?thesis by blast
qed

theorem FindOrCreate_order_counterexample:
  "findByKey reg_parked 7 = Some parked \<and>
   \<not> checkPerms parked (CredentialsFromContext ctx_mallory) (PermsFromMode linux_extern 0x180) \<and>
   FindOrCreate linux_extern ctx_mallory reg_parked 7 (- 1) 0x180 False False False
     = Some (Returns ((None, Some EINVAL), reg_parked)) \<and>
   findByKey reg_parked 8 = None \<and>
   FindOrCreate linux_extern ctx_alice reg_parked 8 (- 1) 0x180 False False False
     = Some (Returns ((None, Some EINVAL), reg_parked))"
  by (simp add: find_defs ex_defs)

subsection \<open>Allocation of identifiers\<close>

lemma sint_int32_bounds:
  "- 2147483648 \<le> sint (x :: int32)" "sint (x :: int32) < 2147483648"
  using sint_ge [of x] sint_lt [of x] by simp_all

lemma sint_succ_int32:
  assumes "sint (x :: int32) < sint (m :: int32)"
  shows "sint (x + 1) = sint x + 1"
proof -
  have "sint x + 1 < 2147483648" "- 2147483648 \<le> sint x + 1"
    using assms sint_int32_bounds [of m] sint_int32_bounds [of x] by linarith+
  then have "signed_take_bit 31 (sint x + 1) = sint x + 1"
    by (simp add: signed_take_bit_int_eq_self_iff)
  then show ?thesis
    by (simp add: sint_word_ariths)
qed

lemma sint_inject: "sint (x :: int32) = sint y \<longleftrightarrow> x = y"
  by (auto intro: signed_word_eqI)

text \<open>What \<open>newSet\<close> returns when its search stops at the identifier \<open>m\<close>.\<close>

lemma newSet_loop_found:
  assumes "ident \<noteq> lastIDUsed r" and "0 \<le> sint ident" and "map_of (semaphores r) ident = None"
  shows "newSet_loop E r st ident =
     Some (if \<not> snd (findFirstAvailableIndex E r) then Panics
           else Returns ((Some (st\<lparr>ID := ident\<rparr>), None),
             r\<lparr>indexes := AList.update (fst (findFirstAvailableIndex E r)) ident (indexes r),
               lastIDUsed := ident,
               semaphores := AList.update ident (st\<lparr>ID := ident\<rparr>) (semaphores r)\<rparr>))"
  using assms by (subst newSet_loop.simps) simp

lemma newSet_loop_skip:
  assumes "ident \<noteq> lastIDUsed r" and "0 \<le> sint ident" and "map_of (semaphores r) ident \<noteq> None"
  shows "newSet_loop E r st ident = newSet_loop E r st (ident + 1)"
  using assms by (subst newSet_loop.simps) auto

lemma newSet_loop_stop:
  "newSet_loop E r st (lastIDUsed r) = Some (Returns ((None, Some ENOMEM), r))"
  by (subst newSet_loop.simps) simp

lemma newSet_loop_wrap:
  assumes "ident \<noteq> lastIDUsed r" and "sint ident < 0"
  shows "newSet_loop E r st ident = newSet_loop E r st 1"
  using assms by (subst newSet_loop.simps) simp

text \<open>The search runs through a stretch of identifiers that are all in use.\<close>

lemma newSet_loop_segment:
  assumes "0 \<le> sint ident" and "sint ident \<le> sint m"
    and "\<forall>i. sint ident \<le> sint i \<and> sint i < sint m \<longrightarrow>
           i \<noteq> lastIDUsed r \<and> map_of (semaphores r) i \<noteq> None"
  shows "newSet_loop E r st ident = newSet_loop E r st m"
  using assms
proof (induction "nat (sint m - sint ident)" arbitrary: ident)
  case 0
  then have "sint ident = sint m" by simp
  then show ?case by (simp add: sint_inject)
next
  case (Suc n)
  from Suc.hyps(2) have lt: "sint ident < sint m" by linarith
  from Suc.prems(3) lt have ne: "ident \<noteq> lastIDUsed r"
    and used: "map_of (semaphores r) ident \<noteq> None"
    by auto
  note s = sint_succ_int32 [OF lt]
  have "newSet_loop E r st (ident + 1) = newSet_loop E r st m"
  proof (rule Suc.hyps(1))
    show "n = nat (sint m - sint (ident + 1))"
      using Suc.hyps(2) s by linarith
    show "0 \<le> sint (ident + 1)"
      using Suc.prems(1) s by linarith
    show "sint (ident + 1) \<le> sint m"
      using lt s by linarith
    show "\<forall>i. sint (ident + 1) \<le> sint i \<and> sint i < sint m \<longrightarrow>
            i \<noteq> lastIDUsed r \<and> map_of (semaphores r) i \<noteq> None"
      using Suc.prems(3) s by auto
  qed
  with newSet_loop_skip [OF ne Suc.prems(1) used] show ?case by simp
qed

lemma newSet_loop_upward:
  assumes "0 \<le> sint (lastIDUsed r)"
    and "sint (lastIDUsed r) < sint ident" and "sint ident \<le> sint m"
    and "\<forall>i. sint ident \<le> sint i \<and> sint i < sint m \<longrightarrow> map_of (semaphores r) i \<noteq> None"
  shows "newSet_loop E r st ident = newSet_loop E r st m"
proof (rule newSet_loop_segment)
  show "0 \<le> sint ident" using assms(1,2) by linarith
  show "sint ident \<le> sint m" by (rule assms(3))
  show "\<forall>i. sint ident \<le> sint i \<and> sint i < sint m \<longrightarrow>
          i \<noteq> lastIDUsed r \<and> map_of (semaphores r) i \<noteq> None"
    using assms(2,4) by auto
qed

text \<open>
  When every identifier above \<open>lastIDUsed\<close> is in use, the search runs to the largest
  \<open>int32\<close>, steps to a negative \<open>id\<close> and goes on at 1: \<open>id = 0; continue\<close> is
  followed by \<open>id++\<close>.
\<close>

lemma newSet_loop_top:
  assumes L: "0 \<le> sint (lastIDUsed r)"
    and full: "\<forall>i. sint (lastIDUsed r) < sint i \<longrightarrow> map_of (semaphores r) i \<noteq> None"
  shows "newSet_loop E r st (lastIDUsed r + 1) = newSet_loop E r st 1"
proof (cases "lastIDUsed r = 2147483647")
  case True
  show ?thesis
  proof (rule newSet_loop_wrap)
    show "lastIDUsed r + 1 \<noteq> lastIDUsed r" by simp
    show "sint (lastIDUsed r + 1) < 0" using True by simp
  qed
next
  case False
  then have "sint (lastIDUsed r) \<noteq> sint (2147483647 :: int32)"
    using sint_inject [of "lastIDUsed r" 2147483647] by blast
  with sint_int32_bounds [of "lastIDUsed r"]
  have lt: "sint (lastIDUsed r) < sint (2147483647 :: int32)" by simp
  note s = sint_succ_int32 [OF lt]
  have "newSet_loop E r st (lastIDUsed r + 1) = newSet_loop E r st 2147483647"
  proof (rule newSet_loop_segment)
    show "0 \<le> sint (lastIDUsed r + 1)" using s L by linarith
    show "sint (lastIDUsed r + 1) \<le> sint (2147483647 :: int32)" using s lt by linarith
    show "\<forall>i. sint (lastIDUsed r + 1) \<le> sint i \<and> sint i < sint (2147483647 :: int32) \<longrightarrow>
            i \<noteq> lastIDUsed r \<and> map_of (semaphores r) i \<noteq> None"
    proof (intro allI impI)
      fix i :: int32
      assume "sint (lastIDUsed r + 1) \<le> sint i \<and> sint i < sint (2147483647 :: int32)"
      with s have gt: "sint (lastIDUsed r) < sint i" by linarith
      then have "i \<noteq> lastIDUsed r" by auto
      with gt full show "i \<noteq> lastIDUsed r \<and> map_of (semaphores r) i \<noteq> None"
        by blast
    qed
  qed
  also have "\<dots> = newSet_loop E r st (2147483647 + 1)"
  proof (rule newSet_loop_skip)
    show "2147483647 \<noteq> lastIDUsed r" using False by simp
    show "0 \<le> sint (2147483647 :: int32)" by simp
    show "map_of (semaphores r) 2147483647 \<noteq> None" using full lt by blast
  qed
  also have "\<dots> = newSet_loop E r st 1"
  proof (rule newSet_loop_wrap)
    show "(2147483647 + 1 :: int32) \<noteq> lastIDUsed r" using L by auto
    show "sint (2147483647 + 1 :: int32) < 0" by simp
  qed
  finally show ?thesis .
qed

text \<open>
  When every identifier from 1 on other than \<open>lastIDUsed\<close> is in use, the search comes
  back to \<open>lastIDUsed\<close> and gives up, without a look at \<open>lastIDUsed\<close> itself or at 0.
\<close>

lemma newSet_loop_exhausted:
  assumes L: "1 \<le> sint (lastIDUsed r)"
    and full: "\<forall>i. 1 \<le> sint i \<and> i \<noteq> lastIDUsed r \<longrightarrow> map_of (semaphores r) i \<noteq> None"
  shows "newSet_loop E r st (lastIDUsed r + 1) = Some (Returns ((None, Some ENOMEM), r))"
proof -
  have "newSet_loop E r st (lastIDUsed r + 1) = newSet_loop E r st 1"
  proof (rule newSet_loop_top)
    show "0 \<le> sint (lastIDUsed r)" using L by simp
    show "\<forall>i. sint (lastIDUsed r) < sint i \<longrightarrow> map_of (semaphores r) i \<noteq> None"
    proof (intro allI impI)
      fix i :: int32
      assume gt: "sint (lastIDUsed r) < sint i"
      then have "i \<noteq> lastIDUsed r" by auto
      moreover from gt L have "1 \<le> sint i" by linarith
      ultimately show "map_of (semaphores r) i \<noteq> None" using full by blast
    qed
  qed
  also have "\<dots> = newSet_loop E r st (lastIDUsed r)"
  proof (rule newSet_loop_segment)
    show "0 \<le> sint (1 :: int32)" by simp
    show "sint (1 :: int32) \<le> sint (lastIDUsed r)" using L by simp
    show "\<forall>i. sint (1 :: int32) \<le> sint i \<and> sint i < sint (lastIDUsed r) \<longrightarrow>
            i \<noteq> lastIDUsed r \<and> map_of (semaphores r) i \<noteq> None"
      using full by auto
  qed
  finally show ?thesis by (simp only: newSet_loop_stop)
qed

lemma findFirstAvailableIndex_loop_result:
  "findFirstAvailableIndex_loop E r i = (idx, found) \<Longrightarrow>
     (found \<longrightarrow>
        (\<exists>n. i \<le> n \<and> int n < setsMax E \<and> idx = word_of_nat n \<and>
             map_of (indexes r) (word_of_nat n) = None \<and>
             (\<forall>j. i \<le> j \<and> j < n \<longrightarrow> map_of (indexes r) (word_of_nat j) \<noteq> None))) \<and>
     (\<not> found \<longrightarrow>
        idx = 0 \<and> (\<forall>j. i \<le> j \<and> int j < setsMax E \<longrightarrow> map_of (indexes r) (word_of_nat j) \<noteq> None))"
proof (induction E r i rule: findFirstAvailableIndex_loop.induct)
  case (1 E r index)
  show ?case
  proof (cases "int index < setsMax E")
    case False
    with "1.prems" show ?thesis
      by (auto simp: findFirstAvailableIndex_loop.simps [of E r index])
  next
    case True
    show ?thesis
    proof (cases "map_of (indexes r) (word_of_nat index) = None")
      case free: True
      with True "1.prems" have "idx = word_of_nat index" "found"
        by (simp_all add: findFirstAvailableIndex_loop.simps [of E r index])
      with True free show ?thesis by auto
    next
      case used: False
      with True "1.prems" have "findFirstAvailableIndex_loop E r (Suc index) = (idx, found)"
        by (auto simp: findFirstAvailableIndex_loop.simps [of E r index])
      note IH = "1.IH" [OF True used this]
      show ?thesis
      proof (cases found)
        case found: True
        with IH obtain n where n: "Suc index \<le> n" "int n < setsMax E" "idx = word_of_nat n"
          "map_of (indexes r) (word_of_nat n) = None"
          "\<forall>j. Suc index \<le> j \<and> j < n \<longrightarrow> map_of (indexes r) (word_of_nat j) \<noteq> None"
          by blast
        have "map_of (indexes r) (word_of_nat j) \<noteq> None" if "index \<le> j \<and> j < n" for j
        proof (cases "j = index")
          case True
          with used show ?thesis by simp
        next
          case False
          with that have "Suc index \<le> j \<and> j < n" by simp
          with n(5) show ?thesis by blast
        qed
        with n(1-4) have "\<exists>n. index \<le> n \<and> int n < setsMax E \<and> idx = word_of_nat n \<and>
             map_of (indexes r) (word_of_nat n) = None \<and>
             (\<forall>j. index \<le> j \<and> j < n \<longrightarrow> map_of (indexes r) (word_of_nat j) \<noteq> None)"
          by (intro exI [of _ n]) simp
        with found show ?thesis by blast
      next
        case notfound: False
        with IH have z: "idx = 0"
          and a: "\<forall>j. Suc index \<le> j \<and> int j < setsMax E \<longrightarrow>
                    map_of (indexes r) (word_of_nat j) \<noteq> None"
          by blast+
        have "map_of (indexes r) (word_of_nat j) \<noteq> None" if "index \<le> j \<and> int j < setsMax E" for j
        proof (cases "j = index")
          case True
          with used show ?thesis by simp
        next
          case False
          with that have "Suc index \<le> j \<and> int j < setsMax E" by simp
          with a show ?thesis by blast
        qed
        with z notfound show ?thesis by blast
      qed
    qed
  qed
qed


lemma findFirstAvailableIndex_result:
  "(snd (findFirstAvailableIndex E r) \<longrightarrow>
      (\<exists>n. int n < setsMax E \<and> fst (findFirstAvailableIndex E r) = word_of_nat n \<and>
           map_of (indexes r) (word_of_nat n) = None \<and>
           (\<forall>j. j < n \<longrightarrow> map_of (indexes r) (word_of_nat j) \<noteq> None))) \<and>
   (\<not> snd (findFirstAvailableIndex E r) \<longrightarrow>
      (\<forall>j. int j < setsMax E \<longrightarrow> map_of (indexes r) (word_of_nat j) \<noteq> None))"
  using findFirstAvailableIndex_loop_result
    [of E r 0 "fst (findFirstAvailableIndex E r)" "snd (findFirstAvailableIndex E r)"]
  by (simp add: findFirstAvailableIndex_def)

text \<open>
  The upward search: when \<open>m\<close> is the smallest identifier above \<open>lastIDUsed\<close> that is
  not in use, \<open>newSet\<close> assigns \<open>m\<close> and pairs it with the index that
  \<open>findFirstAvailableIndex\<close> finds, the lowest one not in use.
\<close>

lemma newSet_smallest_above:
  assumes last: "0 \<le> sint (lastIDUsed r)" and n: "0 \<le> sint nsems"
    and above: "sint (lastIDUsed r) < sint m"
    and free: "map_of (semaphores r) m = None"
    and least: "\<forall>i. sint (lastIDUsed r) < sint i \<and> sint i < sint m \<longrightarrow>
                  map_of (semaphores r) i \<noteq> None"
  shows "newSet E ctx r k own creat prm nsems =
     Some (if \<not> snd (findFirstAvailableIndex E r) then Panics
           else Returns ((Some ((newSet_literal ctx r k own prm nsems)\<lparr>ID := m\<rparr>), None),
             r\<lparr>indexes := AList.update (fst (findFirstAvailableIndex E r)) m (indexes r),
               lastIDUsed := m,
               semaphores :=
                 AList.update m ((newSet_literal ctx r k own prm nsems)\<lparr>ID := m\<rparr>) (semaphores r)\<rparr>))"
proof -
  note s = sint_succ_int32 [OF above]
  have "newSet_loop E r (newSet_literal ctx r k own prm nsems) (lastIDUsed r + 1)
      = newSet_loop E r (newSet_literal ctx r k own prm nsems) m"
  proof (rule newSet_loop_upward [OF last])
    show "sint (lastIDUsed r) < sint (lastIDUsed r + 1)" using s by simp
    show "sint (lastIDUsed r + 1) \<le> sint m" using s above by simp
    show "\<forall>i. sint (lastIDUsed r + 1) \<le> sint i \<and> sint i < sint m \<longrightarrow>
           map_of (semaphores r) i \<noteq> None"
      using least s by auto
  qed
  moreover have "m \<noteq> lastIDUsed r" "0 \<le> sint m"
    using above last by auto
  ultimately show ?thesis
    using n newSet_loop_found [OF _ _ free, of E "newSet_literal ctx r k own prm nsems"]
    by (simp add: newSet_def)
qed

text \<open>
  The search after the wrap-around: when every identifier above \<open>lastIDUsed\<close> is in
  use and \<open>m\<close> is the smallest identifier in \<open>[1, lastIDUsed)\<close> that is not in use,
  \<open>newSet\<close> assigns \<open>m\<close>, whether 0 is in use or not.
\<close>

lemma newSet_smallest_below:
  assumes last: "0 \<le> sint (lastIDUsed r)" and n: "0 \<le> sint nsems"
    and top: "\<forall>i. sint (lastIDUsed r) < sint i \<longrightarrow> map_of (semaphores r) i \<noteq> None"
    and low: "1 \<le> sint m" and below: "sint m < sint (lastIDUsed r)"
    and free: "map_of (semaphores r) m = None"
    and least: "\<forall>i. 1 \<le> sint i \<and> sint i < sint m \<longrightarrow> map_of (semaphores r) i \<noteq> None"
  shows "newSet E ctx r k own creat prm nsems =
     Some (if \<not> snd (findFirstAvailableIndex E r) then Panics
           else Returns ((Some ((newSet_literal ctx r k own prm nsems)\<lparr>ID := m\<rparr>), None),
             r\<lparr>indexes := AList.update (fst (findFirstAvailableIndex E r)) m (indexes r),
               lastIDUsed := m,
               semaphores :=
                 AList.update m ((newSet_literal ctx r k own prm nsems)\<lparr>ID := m\<rparr>) (semaphores r)\<rparr>))"
proof -
  have "newSet_loop E r (newSet_literal ctx r k own prm nsems) (lastIDUsed r + 1)
      = newSet_loop E r (newSet_literal ctx r k own prm nsems) 1"
    by (rule newSet_loop_top [OF last top])
  also have "\<dots> = newSet_loop E r (newSet_literal ctx r k own prm nsems) m"
  proof (rule newSet_loop_segment)
    show "0 \<le> sint (1 :: int32)" by simp
    show "sint (1 :: int32) \<le> sint m" using low by simp
    show "\<forall>i. sint (1 :: int32) \<le> sint i \<and> sint i < sint m \<longrightarrow>
            i \<noteq> lastIDUsed r \<and> map_of (semaphores r) i \<noteq> None"
      using least below by auto
  qed
  finally have "newSet_loop E r (newSet_literal ctx r k own prm nsems) (lastIDUsed r + 1)
      = newSet_loop E r (newSet_literal ctx r k own prm nsems) m" .
  moreover have "m \<noteq> lastIDUsed r" "0 \<le> sint m"
    using below low by auto
  ultimately show ?thesis
    using n newSet_loop_found [OF _ _ free, of E "newSet_literal ctx r k own prm nsems"]
    by (simp add: newSet_def)
qed

text \<open>
  \<open>ENOMEM\<close>: with \<open>lastIDUsed\<close> at 1 or above, \<open>newSet\<close> gives up as soon as every
  identifier from 1 on other than \<open>lastIDUsed\<close> is in use; neither 0 nor \<open>lastIDUsed\<close>
  is looked at.
\<close>

lemma newSet_exhausted:
  assumes "1 \<le> sint (lastIDUsed r)" and "0 \<le> sint nsems"
    and "\<forall>i. 1 \<le> sint i \<and> i \<noteq> lastIDUsed r \<longrightarrow> map_of (semaphores r) i \<noteq> None"
  shows "newSet E ctx r k own creat prm nsems = Some (Returns ((None, Some ENOMEM), r))"
  using assms(2) newSet_loop_exhausted [OF assms(1,3)] by (simp add: newSet_def)

text \<open>
  The identifier 0 is never handed out: a search that does not start at 0 does not
  come to 0, and the search of \<open>newSet\<close> starts at \<open>lastIDUsed + 1\<close>.
\<close>

lemma newSet_loop_not_zero:
  assumes "newSet_loop E r st ident = Some y"
  shows "ident \<noteq> 0 \<longrightarrow> (\<forall>s e r'. y = Returns ((Some s, e), r') \<longrightarrow> ID s \<noteq> 0)"
proof (rule newSet_loop.raw_induct
    [where P = "\<lambda>E r st ident y. ident \<noteq> 0 \<longrightarrow> (\<forall>s e r'. y = Returns ((Some s, e), r') \<longrightarrow> ID s \<noteq> 0)",
      OF _ assms])
  fix loop :: "extern \<Rightarrow> Registry \<Rightarrow> Set \<Rightarrow> int32
      \<Rightarrow> ((Set option \<times> error option) \<times> Registry) outcome option"
  fix E r st ident y
  assume IH: "\<And>E r st ident y. loop E r st ident = Some y \<Longrightarrow>
      ident \<noteq> 0 \<longrightarrow> (\<forall>s e r'. y = Returns ((Some s, e), r') \<longrightarrow> ID s \<noteq> 0)"
  assume body: "(if ident = lastIDUsed r then Some (Returns ((None, Some ENOMEM), r))
      else if sint ident < 0 then loop E r st (0 + 1)
      else if map_of (semaphores r) ident = None then
        (if \<not> snd (findFirstAvailableIndex E r) then Some Panics
         else
           Some (Returns ((Some (st\<lparr>ID := ident\<rparr>), None),
             r\<lparr>indexes := AList.update (fst (findFirstAvailableIndex E r)) ident (indexes r),
               lastIDUsed := ident,
               semaphores := AList.update ident (st\<lparr>ID := ident\<rparr>) (semaphores r)\<rparr>)))
      else loop E r st (ident + 1)) = Some y"
  show "ident \<noteq> 0 \<longrightarrow> (\<forall>s e r'. y = Returns ((Some s, e), r') \<longrightarrow> ID s \<noteq> 0)"
  proof (intro impI allI)
    fix s e r'
    assume nz: "ident \<noteq> 0" and y: "y = Returns ((Some s, e), r')"
    show "ID s \<noteq> 0"
    proof (cases "ident = lastIDUsed r")
      case True
      with body y show ?thesis by simp
    next
      case ne: False
      show ?thesis
      proof (cases "sint ident < 0")
        case True
        with ne body have "loop E r st (0 + 1) = Some y" by simp
        from IH [OF this] y show ?thesis by simp
      next
        case pos: False
        show ?thesis
        proof (cases "map_of (semaphores r) ident = None")
          case True
          with ne pos body y nz show ?thesis
            by (auto split: if_splits)
        next
          case False
          with ne pos body have "loop E r st (ident + 1) = Some y" by simp
          moreover have "ident + 1 \<noteq> 0"
          proof
            assume "ident + 1 = 0"
            then have "ident = - 1" by (simp add: eq_neg_iff_add_eq_0)
            with pos show False by simp
          qed
          ultimately show ?thesis using IH y by blast
        qed
      qed
    qed
  qed
qed

lemma newSet_never_zero:
  assumes "0 \<le> sint (lastIDUsed r)"
    and "newSet E ctx r k own creat prm nsems = Some (Returns ((Some s, e), r'))"
  shows "ID s \<noteq> 0"
proof -
  from assms(2) have "newSet_loop E r (newSet_literal ctx r k own prm nsems) (lastIDUsed r + 1)
      = Some (Returns ((Some s, e), r'))"
    by (simp add: newSet_def split: if_splits)
  moreover have "lastIDUsed r + 1 \<noteq> 0"
  proof
    assume "lastIDUsed r + 1 = 0"
    then have "lastIDUsed r = - 1" by (simp add: eq_neg_iff_add_eq_0)
    with assms(1) show False by simp
  qed
  ultimately show ?thesis
    using newSet_loop_not_zero by blast
qed

text \<open>
  How a registry comes to \<open>reg_wrapped\<close>: a round of \<open>FindOrCreate\<close> and \<open>RemoveID\<close>
  on a registry without sets leaves it without sets and moves \<open>lastIDUsed\<close> up by one,
  so 2147483647 rounds lead from \<open>NewRegistry\<close> to \<open>reg_wrapped\<close>.
\<close>

lemma create_then_remove_advances:
  assumes "0 \<le> sint L" and "sint L < 2147483647"
  shows "create_then_remove \<lparr>userNS = 0, semaphores = [], lastIDUsed = L, indexes = []\<rparr>
     = \<lparr>userNS = 0, semaphores = [], lastIDUsed = L + 1, indexes = []\<rparr>"
proof -
  let ?r = "\<lparr>userNS = 0, semaphores = [], lastIDUsed = L, indexes = []\<rparr>"
  let ?s = "(newSet_literal ctx_alice ?r 7 \<lparr>UID = 1000, GID = 1000\<rparr> rw_owner 1)\<lparr>ID := L + 1\<rparr>"
  from assms(2) have lt: "sint L < sint (2147483647 :: int32)" by simp
  note s = sint_succ_int32 [OF lt]
  have ix: "findFirstAvailableIndex linux_extern ?r = (0, True)"
    by (simp add: findFirstAvailableIndex_def findFirstAvailableIndex_loop.simps setsMax_def
        linux_extern_def)
  have "newSet_loop linux_extern ?r (newSet_literal ctx_alice ?r 7 \<lparr>UID = 1000, GID = 1000\<rparr> rw_owner 1)
      (L + 1)
     = Some (Returns ((Some ?s, None), \<lparr>userNS = 0, semaphores = [(L + 1, ?s)], lastIDUsed = L + 1,
         indexes = [(0, L + 1)]\<rparr>))"
    using s assms(1) by (subst newSet_loop_found) (simp_all add: ix)
  then have c: "FindOrCreate linux_extern ctx_alice ?r 7 1 384 False True False
     = Some (Returns ((Some ?s, None), \<lparr>userNS = 0, semaphores = [(L + 1, ?s)], lastIDUsed = L + 1,
         indexes = [(0, L + 1)]\<rparr>))"
    by (simp add: FindOrCreate_def FindOrCreate_create_def newSet_def findByKey_def semsMax_def
        setsMax_def semsTotalMax_def totalSems_def ex_defs mode_triad_def)
  have d: "RemoveID \<lparr>userNS = 0, semaphores = [(L + 1, ?s)], lastIDUsed = L + 1,
         indexes = [(0, L + 1)]\<rparr> [] (L + 1) alice
     = Returns (None, \<lparr>userNS = 0, semaphores = [], lastIDUsed = L + 1, indexes = []\<rparr>,
         Some (?s\<lparr>dead := True\<rparr>), [])"
    by (simp add: RemoveID_def findIndexByID_def checkCredentials_def destroy_def
        newSet_literal_def alice_def)
  show ?thesis
    unfolding create_then_remove_def c by (simp add: d)
qed

lemma sint_of_nat_int32:
  assumes "n \<le> 2147483647"
  shows "sint (word_of_nat n :: int32) = int n"
  using assms by (simp add: signed_of_nat signed_take_bit_int_eq_self_iff)

lemma create_then_remove_rounds:
  assumes "n \<le> 2147483647"
  shows "(create_then_remove ^^ n) (NewRegistry 0)
     = \<lparr>userNS = 0, semaphores = [], lastIDUsed = word_of_nat n, indexes = []\<rparr>"
  using assms
proof (induction n)
  case 0
  show ?case by (simp add: NewRegistry_def)
next
  case (Suc n)
  then have n: "n \<le> 2147483647" and lt: "int n < 2147483647" by simp_all
  from Suc.IH [OF n]
  have "(create_then_remove ^^ Suc n) (NewRegistry 0)
      = create_then_remove \<lparr>userNS = 0, semaphores = [], lastIDUsed = word_of_nat n, indexes = []\<rparr>"
    by simp
  also have "\<dots> = \<lparr>userNS = 0, semaphores = [], lastIDUsed = word_of_nat n + 1, indexes = []\<rparr>"
    using lt by (intro create_then_remove_advances) (simp_all add: sint_of_nat_int32 [OF n])
  finally show ?case by simp
qed

lemma reg_wrapped_reached:
  "(create_then_remove ^^ 2147483647) (NewRegistry 0) = reg_wrapped"
  using create_then_remove_rounds [of 2147483647] by (simp add: reg_wrapped_def)

text \<open>
  C5 fails in the code, at the wrap-around. After 2147483647 rounds of \<open>FindOrCreate\<close>
  and \<open>RemoveID\<close> the registry holds no set and \<open>lastIDUsed\<close> is the largest \<open>int32\<close>.
  The next search starts at \<open>lastIDUsed + 1\<close>, which is negative; under "Handle wrap
  around" the loop sets \<open>id = 0\<close> and continues, the post statement \<open>id++\<close> runs, and
  the first identifier tried is 1. So \<open>newSet\<close>, and \<open>FindOrCreate\<close> through it, assigns
  the identifier 1 and records it as \<open>lastIDUsed\<close>, with the lowest index 0, while the
  identifier 0 is not in use: the first unused identifier after the wrap to 0 is 0.
\<close>

theorem newSet_wrap_skips_zero:
  "(create_then_remove ^^ 2147483647) (NewRegistry 0) = reg_wrapped \<and>
   lastIDUsed reg_wrapped = 2147483647 \<and>
   map_of (semaphores reg_wrapped) 0 = None \<and>
   newSet linux_extern ctx_alice reg_wrapped 7 \<lparr>UID = 1000, GID = 1000\<rparr> \<lparr>UID = 1000, GID = 1000\<rparr>
       rw_owner 1
     = Some (Returns ((Some (set_of [sem_of 0 [] 0]), None),
         \<lparr>userNS = 0, semaphores = [(1, set_of [sem_of 0 [] 0])], lastIDUsed = 1,
          indexes = [(0, 1)]\<rparr>)) \<and>
   FindOrCreate linux_extern ctx_alice reg_wrapped 7 1 384 False True False
     = Some (Returns ((Some (set_of [sem_of 0 [] 0]), None),
         \<lparr>userNS = 0, semaphores = [(1, set_of [sem_of 0 [] 0])], lastIDUsed = 1,
          indexes = [(0, 1)]\<rparr>)) \<and>
   ID (set_of [sem_of 0 [] 0]) = 1"
proof -
  have n: "newSet linux_extern ctx_alice reg_wrapped 7 \<lparr>UID = 1000, GID = 1000\<rparr>
       \<lparr>UID = 1000, GID = 1000\<rparr> rw_owner 1
     = Some (Returns ((Some (set_of [sem_of 0 [] 0]), None),
         \<lparr>userNS = 0, semaphores = [(1, set_of [sem_of 0 [] 0])], lastIDUsed = 1,
          indexes = [(0, 1)]\<rparr>))"
    by (simp add: reg_wrapped_def reg_defs ex_defs set_of_def sem_of_def newSet_loop.simps)
  have f: "FindOrCreate linux_extern ctx_alice reg_wrapped 7 1 384 False True False
     = Some (Returns ((Some (set_of [sem_of 0 [] 0]), None),
         \<lparr>userNS = 0, semaphores = [(1, set_of [sem_of 0 [] 0])], lastIDUsed = 1,
          indexes = [(0, 1)]\<rparr>))"
    by (simp add: reg_wrapped_def reg_defs ex_defs set_of_def sem_of_def mode_triad_def
        newSet_loop.simps)
  have "lastIDUsed reg_wrapped = 2147483647" "map_of (semaphores reg_wrapped) 0 = None"
    "ID (set_of [sem_of 0 [] 0]) = 1"
    by (simp_all add: reg_wrapped_def set_of_def)
  with reg_wrapped_reached n f show ?thesis by blast
qed

end
